theory Spec2Isabelle
  imports Main "HOL-Library.Word" "HOL-Library.Signed_Division" "HOL-Library.Multiset"
begin

section \<open>Go values shared by the packages\<close>

text \<open>
  Machine integers are 64-bit words: \<open>uint64\<close> is read with \<open>unat\<close>, \<open>int64\<close>
  (and \<open>time.Duration\<close>, which is an \<open>int64\<close> of nanoseconds) with \<open>sint\<close>.
  A \<open>time.Time\<close> is an abstract instant. An \<open>interface{}\<close> value is \<open>None\<close> for
  \<open>nil\<close> (the zero value a receive from a closed, empty channel yields) and
  \<open>Some v\<close> otherwise.
\<close>

type_synonym uint64 = "64 word"
type_synonym int64 = "64 word"
type_synonym Duration = "64 word"
type_synonym Time = int
type_synonym 'a iface = "'a option"

text \<open>Go's \<open>/\<close> on \<open>int64\<close>: the quotient truncated towards zero, wrapped to 64 bits.\<close>

definition div_int64 :: "int64 \<Rightarrow> int64 \<Rightarrow> int64" where
  "div_int64 x y = word_of_int (sint x sdiv sint y)"

text \<open>The run-time panics the modelled code can raise.\<close>

datatype fault =
    MakeSliceLenOutOfRange
  | MakeChanSizeOutOfRange
  | SendOnClosedChannel
  | CloseOfClosedChannel
  | NegativeWaitGroupCounter
  | ProcessPanic

text \<open>
  A channel: its buffer (oldest value first), its capacity and whether it was closed.
  A send on a closed channel panics; a send on an open channel needs a free slot
  (or a waiting receiver, which the operations below model as a hand-off); a receive
  needs a buffered value, or a closed channel, which yields the zero value.
\<close>

record 'a chan =
  buf :: "'a list"
  cap :: nat
  closed :: bool

definition make_chan :: "nat \<Rightarrow> 'a chan" where
  "make_chan n = \<lparr>buf = [], cap = n, closed = False\<rparr>"

definition has_room :: "'a chan \<Rightarrow> bool" where
  "has_room c = (length (buf c) < cap c)"

definition push :: "'a \<Rightarrow> 'a chan \<Rightarrow> 'a chan" where
  "push x c = c\<lparr>buf := buf c @ [x]\<rparr>"

text \<open>
  What a channel operation does when it is attempted: it proceeds (with the channel
  afterwards), it would block, or it panics. \<open>send\<close> is the statement \<open>c <- x\<close>;
  \<open>try_send\<close> is \<open>select { case c <- x: default: }\<close>, which takes the default case
  instead of blocking.
\<close>

datatype 'c chan_op = Proceeds 'c | WouldBlock | ChanPanic fault

definition send :: "'a \<Rightarrow> 'a chan \<Rightarrow> 'a chan chan_op" where
  "send x c =
     (if closed c then ChanPanic SendOnClosedChannel
      else if has_room c then Proceeds (push x c)
      else WouldBlock)"

definition try_send :: "'a \<Rightarrow> 'a chan \<Rightarrow> 'a chan chan_op" where
  "try_send x c = (case send x c of WouldBlock \<Rightarrow> Proceeds c | r \<Rightarrow> r)"

definition can_recv :: "'a chan \<Rightarrow> bool" where
  "can_recv c = (buf c \<noteq> [] \<or> closed c)"

definition recv :: "'a \<Rightarrow> 'a chan \<Rightarrow> 'a \<times> 'a chan" where
  "recv zero c = (case buf c of [] \<Rightarrow> (zero, c) | x # xs \<Rightarrow> (x, c\<lparr>buf := xs\<rparr>))"

definition close_chan :: "'a chan \<Rightarrow> 'a chan chan_op" where
  "close_chan c = (if closed c then ChanPanic CloseOfClosedChannel else Proceeds (c\<lparr>closed := True\<rparr>))"

section \<open>monitor.MetricsCollector\<close>

record MetricsCollector =
  processed :: uint64
  errors :: uint64
  duration :: int64

definition IncrementProcessed :: "MetricsCollector \<Rightarrow> MetricsCollector" where
  "IncrementProcessed m = m\<lparr>processed := processed m + 1\<rparr>"

definition IncrementErrors :: "MetricsCollector \<Rightarrow> MetricsCollector" where
  "IncrementErrors m = m\<lparr>errors := errors m + 1\<rparr>"

definition AddDuration :: "Duration \<Rightarrow> MetricsCollector \<Rightarrow> MetricsCollector" where
  "AddDuration d m = m\<lparr>duration := duration m + d\<rparr>"

text \<open>
  \<open>GetMetrics\<close>: the named results start at their zero values; \<open>avgDuration\<close> is
  assigned only when \<open>processed > 0\<close>, as
  \<open>time.Duration(totalDuration) / time.Duration(processed)\<close>. The conversion of the
  \<open>uint64\<close> count to \<open>time.Duration\<close> keeps the 64 bits.
\<close>

definition Duration_of_uint64 :: "uint64 \<Rightarrow> Duration" where
  "Duration_of_uint64 n = ucast n"

definition GetMetrics :: "MetricsCollector \<Rightarrow> uint64 \<times> uint64 \<times> Duration" where
  "GetMetrics m =
     (let processed' = processed m;
          errors' = errors m;
          avgDuration = (if processed' > 0
                         then (let totalDuration = duration m
                               in div_int64 totalDuration (Duration_of_uint64 processed'))
                         else 0)
      in (processed', errors', avgDuration))"

section \<open>concurrency.StatefulPool\<close>

subsection \<open>The data\<close>

text \<open>
  \<open>StatefulWorker\<close>: the fields the package reads or writes. \<open>State\<close> is never
  assigned, and the lock \<open>mu\<close> is represented by the atomicity of the locked section.
\<close>

record StatefulWorker =
  ID :: int
  LastWork :: Time
  WorkCount :: int64

text \<open>
  \<open>StatefulPool\<close>: \<open>ctx_done\<close> is whether \<open>cancel\<close> was called on \<open>ctx\<close>, \<open>wg\<close> is the
  counter of the wait group.
\<close>

record 'a StatefulPool =
  workers :: "StatefulWorker list"
  tasks :: "'a iface chan"
  results :: "'a iface chan"
  done_ch :: "unit chan"
  wg :: nat
  ctx_done :: bool
  rateLimiter :: "unit chan"

text \<open>
  \<open>NewStatefulPool workers queueSize rateLimit\<close>; \<open>now i\<close> is what \<open>time.Now()\<close>
  returns in iteration \<open>i\<close> of the initialisation loop. \<open>make\<close> panics on a negative
  length or size. The argument \<open>rateLimit\<close> is not used by the body.
\<close>

definition NewStatefulPool ::
  "int \<Rightarrow> int \<Rightarrow> Duration \<Rightarrow> (nat \<Rightarrow> Time) \<Rightarrow> fault + 'a StatefulPool" where
  "NewStatefulPool workers' queueSize rateLimit now =
     (if workers' < 0 then Inl MakeSliceLenOutOfRange
      else if queueSize < 0 then Inl MakeChanSizeOutOfRange
      else Inr \<lparr>workers = map (\<lambda>i. \<lparr>ID = int i, LastWork = now i, WorkCount = 0\<rparr>)
                               [0 ..< nat workers'],
                tasks = make_chan (nat queueSize),
                results = make_chan (nat queueSize),
                done_ch = make_chan 0,
                wg = 0,
                ctx_done = False,
                rateLimiter = (make_chan (nat workers'))\<lparr>buf := replicate (nat workers') ()\<rparr>\<rparr>)"

text \<open>\<open>processTask\<close> sleeps and returns the task.\<close>

definition processTask :: "StatefulWorker \<Rightarrow> 'a iface \<Rightarrow> 'a iface" where
  "processTask worker task = task"

text \<open>\<open>GetWorkerStats\<close> copies the three fields of every worker.\<close>

record WorkerStats =
  stat_ID :: int
  stat_LastWork :: Time
  stat_WorkCount :: int64

definition GetWorkerStats :: "'a StatefulPool \<Rightarrow> WorkerStats list" where
  "GetWorkerStats p =
     map (\<lambda>worker. \<lparr>stat_ID = ID worker, stat_LastWork = LastWork worker,
                     stat_WorkCount = WorkCount worker\<rparr>) (workers p)"

subsection \<open>Submit\<close>

text \<open>
  \<open>Submit\<close> is one \<open>select\<close> over two cases. \<open>Submit p task c\<close> is what happens when
  the \<open>select\<close> takes case \<open>c\<close>: \<open>None\<close> when that case is not ready (the \<open>select\<close>
  cannot take it), otherwise the outcome. A send on a closed channel is ready and
  panics. Go takes any ready case, chosen at random.
\<close>

datatype select_case = Case_send | Case_done

datatype error = Canceled

datatype 'p outcome = Returns "error option" 'p | Panics fault

definition Submit ::
  "'a StatefulPool \<Rightarrow> 'a iface \<Rightarrow> select_case \<Rightarrow> 'a StatefulPool outcome option" where
  "Submit p task c =
     (case c of
        Case_send \<Rightarrow>
          (case send task (tasks p) of
             Proceeds c \<Rightarrow> Some (Returns None (p\<lparr>tasks := c\<rparr>))
           | WouldBlock \<Rightarrow> None
           | ChanPanic f \<Rightarrow> Some (Panics f))
      | Case_done \<Rightarrow>
          if ctx_done p then Some (Returns (Some Canceled) p) else None)"

subsection \<open>The goroutines\<close>

text \<open>
  Where a worker goroutine stands in \<open>runWorker\<close>, by the line of stateful.go it is
  about to execute: \<open>L93\<close> the outer \<open>select\<close>, \<open>L98\<close> the inner \<open>select\<close> (the permit
  taken at line 96), \<open>L101\<close> the locked update (holding the task received at line 99),
  \<open>L107\<close> the call of \<open>processTask\<close>, \<open>L108\<close> the send of the result, \<open>L111\<close> the
  return of the permit; \<open>Ret95\<close> and \<open>Ret113\<close> after the \<open>return\<close> of that line.
\<close>

datatype 'a pc =
    NotLaunched
  | L93
  | L98
  | L101 "'a iface"
  | L107 "'a iface"
  | L108 "'a iface"
  | L111
  | Ret95
  | Ret113

text \<open>Where the caller of \<open>Stop\<close> stands: the line of \<open>Stop\<close> it executes next.\<close>

datatype stop_pc = S77 | S78 | S79 | S80 | StopReturned

text \<open>
  The running program: the pool, one control point per worker goroutine, the control
  point of \<open>Stop\<close>, the panic that ended the process (if any), the tasks for which
  \<open>Submit\<close> returned \<open>nil\<close>, and the values the reader of \<open>Results()\<close> has received.
\<close>

record 'a sys =
  pool :: "'a StatefulPool"
  started :: bool
  pcs :: "'a pc list"
  stop :: stop_pc
  crashed :: "fault option"
  accepted :: "'a iface list"
  delivered :: "'a iface list"

definition boot :: "'a StatefulPool \<Rightarrow> 'a sys" where
  "boot p = \<lparr>pool = p, started = False, pcs = replicate (length (workers p)) NotLaunched,
             stop = S77, crashed = None, accepted = [], delivered = []\<rparr>"

definition crash :: "fault \<Rightarrow> 'a sys \<Rightarrow> 'a sys" where
  "crash f s = s\<lparr>crashed := Some f\<rparr>"

text \<open>\<open>Start\<close>: \<open>wg.Add(1)\<close> and \<open>go p.runWorker(i, worker)\<close> for every worker.\<close>

definition Start :: "'a sys \<Rightarrow> 'a sys option" where
  "Start s =
     (if started s then None
      else Some (s\<lparr>started := True,
                   pool := (pool s)\<lparr>wg := wg (pool s) + length (workers (pool s))\<rparr>,
                   pcs := map (\<lambda>_. L93) (pcs s)\<rparr>))"

text \<open>
  \<open>Stop\<close>, one statement at a time: \<open>p.cancel()\<close>, \<open>close(p.tasks)\<close>, \<open>p.wg.Wait()\<close>
  (which blocks while the counter is positive), \<open>close(p.results)\<close>.
\<close>

definition Stop_step :: "'a sys \<Rightarrow> 'a sys option" where
  "Stop_step s =
     (case stop s of
        S77 \<Rightarrow> Some (s\<lparr>pool := (pool s)\<lparr>ctx_done := True\<rparr>, stop := S78\<rparr>)
      | S78 \<Rightarrow>
          (case close_chan (tasks (pool s)) of
             Proceeds c \<Rightarrow> Some (s\<lparr>pool := (pool s)\<lparr>tasks := c\<rparr>, stop := S79\<rparr>)
           | WouldBlock \<Rightarrow> None
           | ChanPanic f \<Rightarrow> Some (crash f s))
      | S79 \<Rightarrow> if wg (pool s) = 0 then Some (s\<lparr>stop := S80\<rparr>) else None
      | S80 \<Rightarrow>
          (case close_chan (results (pool s)) of
             Proceeds c \<Rightarrow> Some (s\<lparr>pool := (pool s)\<lparr>results := c\<rparr>, stop := StopReturned\<rparr>)
           | WouldBlock \<Rightarrow> None
           | ChanPanic f \<Rightarrow> Some (crash f s))
      | StopReturned \<Rightarrow> None)"

text \<open>
  What a worker does next. At a \<open>select\<close> the choice names the case taken:
  \<open>TakeDone\<close> is \<open><-p.ctx.Done()\<close>, \<open>TakePermit\<close> is \<open><-p.rateLimiter\<close>, \<open>TakeTask\<close> is
  \<open>task := <-p.tasks\<close>. \<open>Update t\<close> is the locked section, \<open>t\<close> being what \<open>time.Now()\<close>
  returns there. \<open>Send\<close> puts the result into the buffer of \<open>p.results\<close>; \<open>SendTo\<close>
  passes it to a reader waiting on the empty channel (the only way for an unbuffered
  channel). \<open>Release\<close> is \<open>p.rateLimiter <- struct{}{}\<close>.
\<close>

datatype choice =
    TakeDone | TakePermit | TakeTask | Update Time | Process | Send | SendTo | Release

text \<open>The deferred \<open>p.wg.Done()\<close>, on either \<open>return\<close>.\<close>

definition wg_Done :: "'a sys \<Rightarrow> nat \<Rightarrow> 'a pc \<Rightarrow> 'a sys" where
  "wg_Done s i ret =
     (if wg (pool s) = 0 then crash NegativeWaitGroupCounter s
      else s\<lparr>pool := (pool s)\<lparr>wg := wg (pool s) - 1\<rparr>, pcs := (pcs s)[i := ret]\<rparr>)"

definition runWorker :: "'a sys \<Rightarrow> nat \<Rightarrow> 'a pc \<Rightarrow> choice \<Rightarrow> 'a sys option" where
  "runWorker s i at c =
     (case at of
        L93 \<Rightarrow>
          (case c of
             TakeDone \<Rightarrow> if ctx_done (pool s) then Some (wg_Done s i Ret95) else None
           | TakePermit \<Rightarrow>
               if can_recv (rateLimiter (pool s))
               then Some (s\<lparr>pool := (pool s)\<lparr>rateLimiter := snd (recv () (rateLimiter (pool s)))\<rparr>,
                            pcs := (pcs s)[i := L98]\<rparr>)
               else None
           | _ \<Rightarrow> None)
      | L98 \<Rightarrow>
          (case c of
             TakeTask \<Rightarrow>
               if can_recv (tasks (pool s))
               then (case recv None (tasks (pool s)) of
                       (task, ch) \<Rightarrow>
                         Some (s\<lparr>pool := (pool s)\<lparr>tasks := ch\<rparr>, pcs := (pcs s)[i := L101 task]\<rparr>))
               else None
           | TakeDone \<Rightarrow> if ctx_done (pool s) then Some (wg_Done s i Ret113) else None
           | _ \<Rightarrow> None)
      | L101 task \<Rightarrow>
          (case c of
             Update t \<Rightarrow>
               Some (s\<lparr>pool := (pool s)\<lparr>workers := (workers (pool s))
                         [i := (workers (pool s) ! i)
                                 \<lparr>LastWork := t,
                                  WorkCount := WorkCount (workers (pool s) ! i) + 1\<rparr>]\<rparr>,
                       pcs := (pcs s)[i := L107 task]\<rparr>)
           | _ \<Rightarrow> None)
      | L107 task \<Rightarrow>
          (case c of
             Process \<Rightarrow>
               Some (s\<lparr>pcs := (pcs s)[i := L108 (processTask (workers (pool s) ! i) task)]\<rparr>)
           | _ \<Rightarrow> None)
      | L108 result \<Rightarrow>
          (case c of
             Send \<Rightarrow>
               (case send result (results (pool s)) of
                  Proceeds ch \<Rightarrow>
                    Some (s\<lparr>pool := (pool s)\<lparr>results := ch\<rparr>, pcs := (pcs s)[i := L111]\<rparr>)
                | WouldBlock \<Rightarrow> None
                | ChanPanic f \<Rightarrow> Some (crash f s))
           | SendTo \<Rightarrow>
               if \<not> closed (results (pool s)) \<and> buf (results (pool s)) = []
               then Some (s\<lparr>delivered := delivered s @ [result], pcs := (pcs s)[i := L111]\<rparr>)
               else None
           | _ \<Rightarrow> None)
      | L111 \<Rightarrow>
          (case c of
             Release \<Rightarrow>
               (case send () (rateLimiter (pool s)) of
                  Proceeds ch \<Rightarrow>
                    Some (s\<lparr>pool := (pool s)\<lparr>rateLimiter := ch\<rparr>, pcs := (pcs s)[i := L93]\<rparr>)
                | WouldBlock \<Rightarrow> None
                | ChanPanic f \<Rightarrow> Some (crash f s))
           | _ \<Rightarrow> None)
      | _ \<Rightarrow> None)"

text \<open>
  What can happen next in the program. \<open>Call_Submit task c\<close> is a call of \<open>Submit\<close>
  whose \<open>select\<close> takes case \<open>c\<close>; \<open>Submit_to task i\<close> is a call whose send is taken
  directly by worker \<open>i\<close>, waiting at its inner \<open>select\<close> on the empty channel, before
  cancellation (afterwards either \<open>select\<close> has its \<open>Done\<close> case). \<open>Consume\<close> is the
  reader of \<open>Results()\<close> receiving the next buffered value.
\<close>

datatype 'a action =
    Call_Start
  | Call_Submit "'a iface" select_case
  | Submit_to "'a iface" nat
  | Stop_next
  | Worker nat choice
  | Consume

definition fire :: "'a sys \<Rightarrow> 'a action \<Rightarrow> 'a sys option" where
  "fire s a =
     (if crashed s \<noteq> None then None
      else case a of
        Call_Start \<Rightarrow> Start s
      | Call_Submit task c \<Rightarrow>
          (case Submit (pool s) task c of
             None \<Rightarrow> None
           | Some (Panics f) \<Rightarrow> Some (crash f s)
           | Some (Returns None p') \<Rightarrow> Some (s\<lparr>pool := p', accepted := accepted s @ [task]\<rparr>)
           | Some (Returns (Some e) p') \<Rightarrow> Some (s\<lparr>pool := p'\<rparr>))
      | Submit_to task i \<Rightarrow>
          (if i < length (pcs s) \<and> pcs s ! i = L98 \<and> \<not> closed (tasks (pool s))
              \<and> buf (tasks (pool s)) = [] \<and> \<not> ctx_done (pool s)
           then Some (s\<lparr>pcs := (pcs s)[i := L101 task], accepted := accepted s @ [task]\<rparr>)
           else None)
      | Stop_next \<Rightarrow> Stop_step s
      | Worker i c \<Rightarrow> (if i < length (pcs s) then runWorker s i (pcs s ! i) c else None)
      | Consume \<Rightarrow>
          (case buf (results (pool s)) of
             [] \<Rightarrow> None
           | r # rs \<Rightarrow> Some (s\<lparr>pool := (pool s)\<lparr>results := (results (pool s))\<lparr>buf := rs\<rparr>\<rparr>,
                               delivered := delivered s @ [r]\<rparr>)))"

fun run :: "'a sys \<Rightarrow> 'a action list \<Rightarrow> 'a sys option" where
  "run s [] = Some s"
| "run s (a # as) = (case fire s a of None \<Rightarrow> None | Some s' \<Rightarrow> run s' as)"



subsection \<open>What is observed of a state\<close>

text \<open>
  A worker holds a permit from line 96 until line 111 has run; it holds a task from
  line 99 until the send of line 108 has run; its goroutine runs from \<open>Start\<close> until
  a \<open>return\<close>.
\<close>

fun holds_permit :: "'a pc \<Rightarrow> bool" where
  "holds_permit L98 = True"
| "holds_permit (L101 t) = True"
| "holds_permit (L107 t) = True"
| "holds_permit (L108 t) = True"
| "holds_permit L111 = True"
| "holds_permit _ = False"

fun task_of :: "'a pc \<Rightarrow> 'a iface list" where
  "task_of (L101 t) = [t]"
| "task_of (L107 t) = [t]"
| "task_of (L108 t) = [t]"
| "task_of _ = []"

fun counted :: "'a pc \<Rightarrow> nat" where
  "counted (L107 t) = 1"
| "counted (L108 t) = 1"
| "counted _ = 0"

fun running :: "'a pc \<Rightarrow> bool" where
  "running NotLaunched = False"
| "running Ret95 = False"
| "running Ret113 = False"
| "running _ = True"

definition permits_available :: "'a sys \<Rightarrow> nat" where
  "permits_available s = length (buf (rateLimiter (pool s)))"

definition permits_held :: "'a sys \<Rightarrow> nat" where
  "permits_held s = length (filter holds_permit (pcs s))"

definition permits_lost :: "'a sys \<Rightarrow> nat" where
  "permits_lost s = length (filter (\<lambda>c. c = Ret113) (pcs s))"

definition in_flight :: "'a sys \<Rightarrow> 'a iface list" where
  "in_flight s = concat (map task_of (pcs s))"

definition quiescent :: "'a sys \<Rightarrow> bool" where
  "quiescent s = (in_flight s = [])"

text \<open>The results sent on \<open>p.results\<close> so far: those still buffered and those received.\<close>

definition produced :: "'a sys \<Rightarrow> 'a iface list" where
  "produced s = delivered s @ buf (results (pool s))"


text \<open>The sum the test computes over \<open>GetWorkerStats()\<close>, in \<open>int64\<close>.\<close>

definition totalWork :: "'a StatefulPool \<Rightarrow> int64" where
  "totalWork p = sum_list (map stat_WorkCount (GetWorkerStats p))"

text \<open>
  The tasks for which the locked section of lines 101 to 104 has run: those whose
  result was sent, and those a worker holds after line 104.
\<close>

definition updates_done :: "'a sys \<Rightarrow> nat" where
  "updates_done s = length (produced s) + sum_list (map counted (pcs s))"




text \<open>
  \<open>reaches P n s s'\<close>: from \<open>s\<close> the program can get to \<open>s'\<close> in at most \<open>n\<close> actions,
  all of them of the kind \<open>P\<close>.
\<close>

definition reaches :: "('a action \<Rightarrow> bool) \<Rightarrow> nat \<Rightarrow> 'a sys \<Rightarrow> 'a sys \<Rightarrow> bool" where
  "reaches P n s s' = (\<exists>acts. length acts \<le> n \<and> list_all P acts \<and> run s acts = Some s')"












text \<open>
  The facts about a state that every run keeps: one control point per worker; the wait
  group counts the running goroutines; the limiter is open, its capacity is the number
  of workers, and every permit is in the limiter, held by a worker, or was held by a
  worker that returned at line 113; the flags follow \<open>Stop\<close>; no buffer exceeds its
  capacity.
\<close>

definition consistent :: "'a sys \<Rightarrow> bool" where
  "consistent s =
     (length (pcs s) = length (workers (pool s)) \<and>
      wg (pool s) = length (filter running (pcs s)) \<and>
      \<not> closed (rateLimiter (pool s)) \<and>
      cap (rateLimiter (pool s)) = length (workers (pool s)) \<and>
      permits_available s + permits_held s + permits_lost s = length (workers (pool s)) \<and>
      closed (tasks (pool s)) = (stop s = S79 \<or> stop s = S80 \<or> stop s = StopReturned) \<and>
      closed (results (pool s)) = (stop s = StopReturned) \<and>
      ctx_done (pool s) = (stop s \<noteq> S77) \<and>
      length (buf (results (pool s))) \<le> cap (results (pool s)) \<and>
      (if started s then NotLaunched \<notin> set (pcs s) else set (pcs s) \<subseteq> {NotLaunched}))"

text \<open>
  The work counters count the locked updates done: their sum in \<open>int64\<close>, and, while
  fewer than \<open>2 ^ 63\<close> updates were done, the sum of their values.
\<close>

definition counts_exact :: "'a sys \<Rightarrow> bool" where
  "counts_exact s =
     (sum_list (map WorkCount (workers (pool s))) = of_nat (updates_done s) \<and>
      (updates_done s < 2^63 \<longrightarrow>
         sum_list (map (\<lambda>w. unat (WorkCount w)) (workers (pool s))) = updates_done s))"


section \<open>processor.WorkerPool\<close>

text \<open>
  What \<open>p.processor.Process(ctx, req.FilePath)\<close> does: it returns a result and an
  error (\<open>None\<close> for \<open>nil\<close>), or it panics.
\<close>

datatype ('r, 'e) process = Process_returns 'r "'e option" | Process_panics

record 'r WorkRequest =
  FilePath :: string
  ResponseChan :: "'r chan"

record ('r, 'e) WorkerPool =
  size_wp :: int
  processor :: "string \<Rightarrow> ('r, 'e) process"
  requests :: "'r WorkRequest chan"
  done_wp :: "unit chan"
  errors_wp :: "'e chan"

text \<open>How the loop of \<open>worker\<close> ended.\<close>

datatype loop_exit = RangeEnded | CtxDone | Crashed fault | Stuck

text \<open>
  One worker's loop over the requests it receives from \<open>p.requests\<close>, each with whether
  \<open>ctx.Done()\<close> is ready when the \<open>select\<close> of line 95 runs. The result is how the loop
  ended (\<open>Stuck\<close>: blocked for ever on a channel operation), the error channel
  afterwards, and the response channel of every request it served, as it left it.
  There is no \<open>recover\<close> in the function: a panic of \<open>Process\<close> ends the loop.
\<close>

fun worker_loop ::
  "(string \<Rightarrow> ('r, 'e) process) \<Rightarrow> 'e chan \<Rightarrow> ('r WorkRequest \<times> bool) list
     \<Rightarrow> loop_exit \<times> 'e chan \<times> 'r chan list" where
  "worker_loop proc errs [] = (RangeEnded, errs, [])"
| "worker_loop proc errs ((req, ctx_is_done) # rest) =
     (if ctx_is_done then (CtxDone, errs, [])
      else case proc (FilePath req) of
        Process_panics \<Rightarrow> (Crashed ProcessPanic, errs, [])
      | Process_returns result err \<Rightarrow>
          (case (case err of None \<Rightarrow> Proceeds errs | Some e \<Rightarrow> try_send e errs) of
             ChanPanic f \<Rightarrow> (Crashed f, errs, [])
           | WouldBlock \<Rightarrow> (Stuck, errs, [])
           | Proceeds errs' \<Rightarrow>
               (case try_send result (ResponseChan req) of
                  ChanPanic f \<Rightarrow> (Crashed f, errs', [])
                | WouldBlock \<Rightarrow> (Stuck, errs', [])
                | Proceeds rc \<Rightarrow>
                    (case close_chan rc of
                       ChanPanic f \<Rightarrow> (Crashed f, errs', [])
                     | WouldBlock \<Rightarrow> (Stuck, errs', [])
                     | Proceeds rc' \<Rightarrow>
                         (case worker_loop proc errs' rest of
                            (ex, errs'', rcs) \<Rightarrow> (ex, errs'', rc' # rcs))))))"

text \<open>
  \<open>worker\<close>: the loop, then the deferred function, which closes \<open>p.done\<close> for the
  worker whose \<open>id\<close> is 0. The deferred function also runs when the loop panics, and the
  panic then goes on to end the process.
\<close>

definition worker ::
  "('r, 'e) WorkerPool \<Rightarrow> int \<Rightarrow> ('r WorkRequest \<times> bool) list
     \<Rightarrow> loop_exit \<times> ('r, 'e) WorkerPool \<times> 'r chan list" where
  "worker p id' reqs =
     (case worker_loop (processor p) (errors_wp p) reqs of
        (ex, errs, rcs) \<Rightarrow>
          if id' = 0
          then (case close_chan (done_wp p) of
                  Proceeds d \<Rightarrow> (ex, p\<lparr>errors_wp := errs, done_wp := d\<rparr>, rcs)
                | WouldBlock \<Rightarrow> (Stuck, p\<lparr>errors_wp := errs\<rparr>, rcs)
                | ChanPanic f \<Rightarrow>
                    ((case ex of Crashed f' \<Rightarrow> Crashed f' | _ \<Rightarrow> Crashed f),
                     p\<lparr>errors_wp := errs\<rparr>, rcs))
          else (ex, p\<lparr>errors_wp := errs\<rparr>, rcs))"

text \<open>
  The response channel \<open>Submit\<close> makes for a request (\<open>make(chan ..., 1)\<close>), what the
  worker leaves of it after sending \<open>r\<close> and closing it, and the response channel of a
  request after the worker served it (for a call of \<open>Process\<close> that returned).
\<close>

definition fresh_response :: "'r chan" where
  "fresh_response = make_chan 1"

definition answered :: "'r \<Rightarrow> 'r chan" where
  "answered r = \<lparr>buf = [r], cap = 1, closed = True\<rparr>"

definition served :: "(string \<Rightarrow> ('r, 'e) process) \<Rightarrow> 'r WorkRequest \<Rightarrow> 'r chan" where
  "served proc req =
     (case proc (FilePath req) of
        Process_returns result err \<Rightarrow> answered result
      | Process_panics \<Rightarrow> ResponseChan req)"


section \<open>Theorems: monitor.MetricsCollector\<close>

subsection \<open>Signed 64-bit division\<close>

lemma div_le_self_int: "0 \<le> (a::int) \<Longrightarrow> 0 < b \<Longrightarrow> a div b \<le> a"
  by (metis div_0 int_div_le_self linorder_not_le nle_le)

lemma sdiv_pos_range:
  fixes a b :: int
  assumes "0 < b" "- (2^63) \<le> a" "a < 2^63"
  shows "- (2^63) \<le> a sdiv b \<and> a sdiv b < 2^63"
proof (cases "0 \<le> a")
  case True
  then have "a sdiv b = a div b" using assms(1) by (simp add: signed_divide_int_def sgn_if)
  moreover have "a div b \<le> a" using True assms(1) by (rule div_le_self_int)
  moreover have "0 \<le> a div b" using True assms(1) by (simp add: pos_imp_zdiv_nonneg_iff)
  ultimately show ?thesis using assms by linarith
next
  case False
  then have e: "a sdiv b = - ((- a) div b)" using assms(1) by (simp add: signed_divide_int_def sgn_if)
  have "0 \<le> - a" using False by simp
  then have "(- a) div b \<le> - a" using assms(1) by (rule div_le_self_int)
  moreover have "0 \<le> (- a) div b" using False assms(1) by (simp add: pos_imp_zdiv_nonneg_iff)
  ultimately show ?thesis using assms e by linarith
qed

lemma sint_div_int64:
  assumes "0 < sint y"
  shows "sint (div_int64 x y) = sint x sdiv sint y"
proof -
  have "- (2^63) \<le> sint x" using sint_ge[of x] by simp
  moreover have "sint x < 2^63" using sint_lt[of x] by simp
  ultimately have r: "- (2^63) \<le> sint x sdiv sint y \<and> sint x sdiv sint y < 2^63"
    using sdiv_pos_range[OF assms, of "sint x"] by blast
  then have "signed_take_bit 63 (sint x sdiv sint y) = sint x sdiv sint y"
    by (intro signed_take_bit_int_eq_self) blast+
  then show ?thesis
    unfolding div_int64_def by (simp add: sint_sbintrunc')
qed

lemma sint_small:
  fixes n :: "64 word"
  assumes "unat n < 2^63"
  shows "sint n = int (unat n)"
proof -
  have "int (unat n) < int (2^63)" using assms by (simp only: of_nat_less_iff)
  then have "int (unat n) < 2^63" by simp
  then have u: "uint n < 2^63" by (simp only: uint_nat)
  have "0 \<le> uint n" by simp
  moreover have "(0::int) \<le> 2^63" by simp
  ultimately have "- (2^63) \<le> uint n" by linarith
  then have "signed_take_bit 63 (uint n) = uint n"
    using u by (rule signed_take_bit_int_eq_self)
  moreover have "sint n = signed_take_bit 63 (uint n)"
    by (simp only: sint_uint) simp
  ultimately show ?thesis by (simp only: uint_nat)
qed


subsection \<open>GetMetrics\<close>

text \<open>
  C8. \<open>GetMetrics\<close> returns the processed count, the error count and the average
  duration. The average is 0 when the count is 0. When the count is positive and
  below \<open>2 ^ 63\<close> (so that its conversion to \<open>time.Duration\<close> keeps its value), the
  average is the cumulative duration divided by the count, the quotient truncated
  towards zero.
\<close>

theorem GetMetrics_average:
  "fst (GetMetrics m) = processed m \<and>
   fst (snd (GetMetrics m)) = errors m \<and>
   (processed m = 0 \<longrightarrow> snd (snd (GetMetrics m)) = 0) \<and>
   (0 < processed m \<longrightarrow> unat (processed m) < 2^63 \<longrightarrow>
      sint (snd (snd (GetMetrics m))) = sint (duration m) sdiv int (unat (processed m)))"
proof -
  have "sint (div_int64 (duration m) (processed m)) = sint (duration m) sdiv int (unat (processed m))"
    if "0 < processed m" "unat (processed m) < 2^63"
  proof -
    have s: "sint (processed m) = int (unat (processed m))" using that(2) by (rule sint_small)
    have "0 < unat (processed m)" using that(1) by (simp add: word_less_nat_alt)
    then have "0 < int (unat (processed m))" by linarith
    then have "0 < sint (processed m)" by (simp only: s)
    then have "sint (div_int64 (duration m) (processed m)) = sint (duration m) sdiv sint (processed m)"
      by (rule sint_div_int64)
    then show ?thesis by (simp only: s)
  qed
  then show ?thesis
    by (simp add: GetMetrics_def Duration_of_uint64_def Let_def)
qed

theorem GetMetrics_average_witness:
  "sint (snd (snd (GetMetrics \<lparr>processed = 3, errors = 1, duration = - 10\<rparr>))) = - 3
   \<and> snd (snd (GetMetrics \<lparr>processed = 0, errors = 1, duration = - 10\<rparr>)) = 0"
  using GetMetrics_average [of "\<lparr>processed = 3, errors = 1, duration = - 10\<rparr>"]
        GetMetrics_average [of "\<lparr>processed = 0, errors = 1, duration = - 10\<rparr>"]
  by (simp add: signed_divide_int_def)


text \<open>
  C8, as stated for every positive count, fails: a count of \<open>2 ^ 64 - 1\<close> converts to
  the duration \<open>-1\<close>, and a cumulative duration of 10 gives the average \<open>-10\<close>, not
  the quotient 0.
\<close>

theorem GetMetrics_average_counterexample:
  "\<not> (\<forall>m. 0 < processed m \<longrightarrow>
         sint (snd (snd (GetMetrics m))) = sint (duration m) sdiv int (unat (processed m)))"
proof
  assume a: "\<forall>m. 0 < processed m \<longrightarrow>
         sint (snd (snd (GetMetrics m))) = sint (duration m) sdiv int (unat (processed m))"
  have "sint (snd (snd (GetMetrics \<lparr>processed = 18446744073709551615, errors = 0, duration = 10\<rparr>))) = - 10"
    by (simp add: GetMetrics_def Duration_of_uint64_def div_int64_def signed_divide_int_def)
  moreover have "sint (snd (snd (GetMetrics \<lparr>processed = 18446744073709551615, errors = 0, duration = 10\<rparr>))) = 0"
    using a [rule_format, of "\<lparr>processed = 18446744073709551615, errors = 0, duration = 10\<rparr>"]
    by (simp add: signed_divide_int_def)
  ultimately show False by simp
qed



section \<open>Theorems: concurrency.StatefulPool\<close>

subsection \<open>What each action does\<close>

lemma fire_crashed: "fire s a = Some s' \<Longrightarrow> crashed s = None"
  by (simp add: fire_def split: if_splits)

lemma fire_Start:
  "(fire s Call_Start = Some s') =
     (crashed s = None \<and> \<not> started s \<and>
      s' = s\<lparr>started := True,
                pool := (pool s)\<lparr>wg := wg (pool s) + length (workers (pool s))\<rparr>,
                pcs := map (\<lambda>_. L93) (pcs s)\<rparr>)"
  by (auto simp: fire_def Start_def)

lemma fire_Submit_send:
  "(fire s (Call_Submit t Case_send) = Some s') =
     (crashed s = None \<and>
      (if closed (tasks (pool s)) then s' = crash SendOnClosedChannel s
       else has_room (tasks (pool s)) \<and>
            s' = s\<lparr>pool := (pool s)\<lparr>tasks := push t (tasks (pool s))\<rparr>,
                     accepted := accepted s @ [t]\<rparr>))"
  by (auto simp: fire_def Submit_def send_def)

lemma fire_Submit_done:
  "(fire s (Call_Submit t Case_done) = Some s') =
     (crashed s = None \<and> ctx_done (pool s) \<and> s' = s)"
  by (auto simp: fire_def Submit_def)

lemma fire_Submit_to:
  "(fire s (Submit_to t i) = Some s') =
     (crashed s = None \<and> i < length (pcs s) \<and> pcs s ! i = L98 \<and> \<not> closed (tasks (pool s)) \<and>
      buf (tasks (pool s)) = [] \<and> \<not> ctx_done (pool s) \<and>
      s' = s\<lparr>pcs := (pcs s)[i := L101 t], accepted := accepted s @ [t]\<rparr>)"
  by (auto simp: fire_def)

lemma fire_Stop:
  "(fire s Stop_next = Some s') =
     (crashed s = None \<and>
      (case stop s of
         S77 \<Rightarrow> s' = s\<lparr>pool := (pool s)\<lparr>ctx_done := True\<rparr>, stop := S78\<rparr>
       | S78 \<Rightarrow> (if closed (tasks (pool s)) then s' = crash CloseOfClosedChannel s
                 else s' = s\<lparr>pool := (pool s)\<lparr>tasks := (tasks (pool s))\<lparr>closed := True\<rparr>\<rparr>,
                            stop := S79\<rparr>)
       | S79 \<Rightarrow> wg (pool s) = 0 \<and> s' = s\<lparr>stop := S80\<rparr>
       | S80 \<Rightarrow> (if closed (results (pool s)) then s' = crash CloseOfClosedChannel s
                 else s' = s\<lparr>pool := (pool s)\<lparr>results := (results (pool s))\<lparr>closed := True\<rparr>\<rparr>,
                            stop := StopReturned\<rparr>)
       | StopReturned \<Rightarrow> False))"
  by (cases "stop s") (auto simp: fire_def Stop_step_def close_chan_def)

lemma fire_Consume:
  "(fire s Consume = Some s') =
     (crashed s = None \<and>
      (case buf (results (pool s)) of
         [] \<Rightarrow> False
       | r # rs \<Rightarrow> s' = s\<lparr>pool := (pool s)\<lparr>results := (results (pool s))\<lparr>buf := rs\<rparr>\<rparr>,
                           delivered := delivered s @ [r]\<rparr>))"
  by (cases "buf (results (pool s))") (auto simp: fire_def)

lemma fire_Worker:
  "(fire s (Worker i c) = Some s') =
     (crashed s = None \<and> i < length (pcs s) \<and> runWorker s i (pcs s ! i) c = Some s')"
  by (auto simp: fire_def)


lemma runWorker_cases [consumes 1, case_names crash ret95 permit task task_nil ret113 update
    process send sendto release permit_closed]:
  assumes r: "runWorker s i (pcs s ! i) c = Some s'"
  obtains
    f where "s' = crash f s"
  | "c = TakeDone" "pcs s ! i = L93" "ctx_done (pool s)" "wg (pool s) \<noteq> 0"
      "s' = s\<lparr>pool := (pool s)\<lparr>wg := wg (pool s) - 1\<rparr>, pcs := (pcs s)[i := Ret95]\<rparr>"
  | u us where "c = TakePermit" "pcs s ! i = L93" "buf (rateLimiter (pool s)) = u # us"
      "s' = s\<lparr>pool := (pool s)\<lparr>rateLimiter := (rateLimiter (pool s))\<lparr>buf := us\<rparr>\<rparr>,
                pcs := (pcs s)[i := L98]\<rparr>"
  | t ts where "c = TakeTask" "pcs s ! i = L98" "buf (tasks (pool s)) = t # ts"
      "s' = s\<lparr>pool := (pool s)\<lparr>tasks := (tasks (pool s))\<lparr>buf := ts\<rparr>\<rparr>,
                pcs := (pcs s)[i := L101 t]\<rparr>"
  | "c = TakeTask" "pcs s ! i = L98" "buf (tasks (pool s)) = []" "closed (tasks (pool s))"
      "s' = s\<lparr>pcs := (pcs s)[i := L101 None]\<rparr>"
  | "c = TakeDone" "pcs s ! i = L98" "ctx_done (pool s)" "wg (pool s) \<noteq> 0"
      "s' = s\<lparr>pool := (pool s)\<lparr>wg := wg (pool s) - 1\<rparr>, pcs := (pcs s)[i := Ret113]\<rparr>"
  | t now where "c = Update now" "pcs s ! i = L101 t"
      "s' = s\<lparr>pool := (pool s)\<lparr>workers := (workers (pool s))
                         [i := (workers (pool s) ! i)
                                 \<lparr>LastWork := now,
                                  WorkCount := WorkCount (workers (pool s) ! i) + 1\<rparr>]\<rparr>,
                pcs := (pcs s)[i := L107 t]\<rparr>"
  | t where "c = Process" "pcs s ! i = L107 t" "s' = s\<lparr>pcs := (pcs s)[i := L108 t]\<rparr>"
  | t where "c = Send" "pcs s ! i = L108 t" "\<not> closed (results (pool s))"
      "has_room (results (pool s))"
      "s' = s\<lparr>pool := (pool s)\<lparr>results := push t (results (pool s))\<rparr>,
                pcs := (pcs s)[i := L111]\<rparr>"
  | t where "c = SendTo" "pcs s ! i = L108 t" "\<not> closed (results (pool s))"
      "buf (results (pool s)) = []"
      "s' = s\<lparr>delivered := delivered s @ [t], pcs := (pcs s)[i := L111]\<rparr>"
  | "c = Release" "pcs s ! i = L111" "\<not> closed (rateLimiter (pool s))"
      "has_room (rateLimiter (pool s))"
      "s' = s\<lparr>pool := (pool s)\<lparr>rateLimiter := push () (rateLimiter (pool s))\<rparr>,
                pcs := (pcs s)[i := L93]\<rparr>"
  | "c = TakePermit" "pcs s ! i = L93" "buf (rateLimiter (pool s)) = []"
      "closed (rateLimiter (pool s))" "s' = s\<lparr>pcs := (pcs s)[i := L98]\<rparr>"
proof (cases "pcs s ! i")
  case NotLaunched
  then show ?thesis using r by (simp add: runWorker_def)
next
  case L93
  show ?thesis
  proof (cases c)
    case TakeDone
    show ?thesis
    proof (cases "wg (pool s) = 0")
      case True
      then have "s' = crash NegativeWaitGroupCounter s"
        using r L93 TakeDone by (simp add: runWorker_def wg_Done_def split: if_splits)
      then show ?thesis by (rule that(1))
    next
      case False
      then have "ctx_done (pool s)"
        and "s' = s\<lparr>pool := (pool s)\<lparr>wg := wg (pool s) - 1\<rparr>, pcs := (pcs s)[i := Ret95]\<rparr>"
        using r L93 TakeDone by (simp_all add: runWorker_def wg_Done_def split: if_splits)
      then show ?thesis using that(2) TakeDone L93 False by blast
    qed
  next
    case TakePermit
    show ?thesis
    proof (cases "buf (rateLimiter (pool s))")
      case Nil
      then have "closed (rateLimiter (pool s))" and "s' = s\<lparr>pcs := (pcs s)[i := L98]\<rparr>"
        using r L93 TakePermit
        by (simp_all add: runWorker_def can_recv_def recv_def split: if_splits)
      then show ?thesis using that(12) TakePermit L93 Nil by blast
    next
      case (Cons u us)
      then have "s' = s\<lparr>pool := (pool s)\<lparr>rateLimiter := (rateLimiter (pool s))\<lparr>buf := us\<rparr>\<rparr>,
                pcs := (pcs s)[i := L98]\<rparr>"
        using r L93 TakePermit by (simp add: runWorker_def can_recv_def recv_def)
      then show ?thesis using that(3) TakePermit L93 Cons by blast
    qed
  qed (use r L93 in \<open>simp_all add: runWorker_def\<close>)
next
  case L98
  show ?thesis
  proof (cases c)
    case TakeDone
    show ?thesis
    proof (cases "wg (pool s) = 0")
      case True
      then have "s' = crash NegativeWaitGroupCounter s"
        using r L98 TakeDone by (simp add: runWorker_def wg_Done_def split: if_splits)
      then show ?thesis by (rule that(1))
    next
      case False
      then have "ctx_done (pool s)"
        and "s' = s\<lparr>pool := (pool s)\<lparr>wg := wg (pool s) - 1\<rparr>, pcs := (pcs s)[i := Ret113]\<rparr>"
        using r L98 TakeDone by (simp_all add: runWorker_def wg_Done_def split: if_splits)
      then show ?thesis using that(6) TakeDone L98 False by blast
    qed
  next
    case TakeTask
    show ?thesis
    proof (cases "buf (tasks (pool s))")
      case Nil
      then have "closed (tasks (pool s))" and "s' = s\<lparr>pcs := (pcs s)[i := L101 None]\<rparr>"
        using r L98 TakeTask
        by (simp_all add: runWorker_def can_recv_def recv_def split: if_splits)
      then show ?thesis using that(5) TakeTask L98 Nil by blast
    next
      case (Cons t ts)
      then have "s' = s\<lparr>pool := (pool s)\<lparr>tasks := (tasks (pool s))\<lparr>buf := ts\<rparr>\<rparr>,
                pcs := (pcs s)[i := L101 t]\<rparr>"
        using r L98 TakeTask by (simp add: runWorker_def can_recv_def recv_def)
      then show ?thesis using that(4) TakeTask L98 Cons by blast
    qed
  qed (use r L98 in \<open>simp_all add: runWorker_def\<close>)
next
  case (L101 t)
  show ?thesis
  proof (cases c)
    case (Update now)
    then have "s' = s\<lparr>pool := (pool s)\<lparr>workers := (workers (pool s))
                         [i := (workers (pool s) ! i)
                                 \<lparr>LastWork := now,
                                  WorkCount := WorkCount (workers (pool s) ! i) + 1\<rparr>]\<rparr>,
                pcs := (pcs s)[i := L107 t]\<rparr>"
      using r L101 by (simp add: runWorker_def)
    then show ?thesis using that(7) Update L101 by blast
  qed (use r L101 in \<open>simp_all add: runWorker_def\<close>)
next
  case (L107 t)
  show ?thesis
  proof (cases c)
    case Process
    then have "s' = s\<lparr>pcs := (pcs s)[i := L108 t]\<rparr>"
      using r L107 by (simp add: runWorker_def processTask_def)
    then show ?thesis using that(8) Process L107 by blast
  qed (use r L107 in \<open>simp_all add: runWorker_def\<close>)
next
  case (L108 t)
  show ?thesis
  proof (cases c)
    case Send
    show ?thesis
    proof (cases "closed (results (pool s))")
      case True
      then have "s' = crash SendOnClosedChannel s"
        using r L108 Send by (simp add: runWorker_def send_def)
      then show ?thesis by (rule that(1))
    next
      case False
      then have "has_room (results (pool s))"
        and "s' = s\<lparr>pool := (pool s)\<lparr>results := push t (results (pool s))\<rparr>,
                pcs := (pcs s)[i := L111]\<rparr>"
        using r L108 Send by (simp_all add: runWorker_def send_def split: if_splits)
      then show ?thesis using that(9) Send L108 False by blast
    qed
  next
    case SendTo
    then have "\<not> closed (results (pool s))" and "buf (results (pool s)) = []"
      and "s' = s\<lparr>delivered := delivered s @ [t], pcs := (pcs s)[i := L111]\<rparr>"
      using r L108 by (simp_all add: runWorker_def split: if_splits)
    then show ?thesis using that(10) SendTo L108 by blast
  qed (use r L108 in \<open>simp_all add: runWorker_def\<close>)
next
  case L111
  show ?thesis
  proof (cases c)
    case Release
    show ?thesis
    proof (cases "closed (rateLimiter (pool s))")
      case True
      then have "s' = crash SendOnClosedChannel s"
        using r L111 Release by (simp add: runWorker_def send_def)
      then show ?thesis by (rule that(1))
    next
      case False
      then have "has_room (rateLimiter (pool s))"
        and "s' = s\<lparr>pool := (pool s)\<lparr>rateLimiter := push () (rateLimiter (pool s))\<rparr>,
                pcs := (pcs s)[i := L93]\<rparr>"
        using r L111 Release by (simp_all add: runWorker_def send_def split: if_splits)
      then show ?thesis using that(11) Release L111 False by blast
    qed
  qed (use r L111 in \<open>simp_all add: runWorker_def\<close>)
next
  case Ret95
  then show ?thesis using r by (simp add: runWorker_def)
next
  case Ret113
  then show ?thesis using r by (simp add: runWorker_def)
qed


lemma length_filter_update:
  assumes "i < length xs"
  shows "length (filter P (xs[i := y])) + (if P (xs ! i) then 1 else 0) =
         length (filter P xs) + (if P y then 1 else 0)"
proof -
  have a: "xs[i := y] = take i xs @ y # drop (Suc i) xs"
    using assms by (rule upd_conv_take_nth_drop)
  have "length (filter P xs) = length (filter P (take i xs @ xs ! i # drop (Suc i) xs))"
    using id_take_nth_drop[OF assms] by (rule arg_cong)
  then show ?thesis by (simp add: a)
qed

lemma not_in_set_update: "x \<notin> set xs \<Longrightarrow> x \<noteq> y \<Longrightarrow> x \<notin> set (xs[i := y])"
  using set_update_subset_insert[of xs i y] by auto

lemma consistent_cong:
  "pool s' = pool s \<Longrightarrow> pcs s' = pcs s \<Longrightarrow> stop s' = stop s \<Longrightarrow> started s' = started s
   \<Longrightarrow> consistent s' = consistent s"
  by (simp add: consistent_def permits_available_def permits_held_def permits_lost_def)

lemma consistent_crash: "consistent (crash f s) = consistent s"
  by (simp add: consistent_def crash_def permits_available_def permits_held_def permits_lost_def)

lemma consistent_started:
  assumes "consistent s" "i < length (pcs s)" "pcs s ! i \<noteq> NotLaunched"
  shows "started s" and "NotLaunched \<notin> set (pcs s)"
proof -
  have "pcs s ! i \<in> set (pcs s)" using assms(2) by simp
  then have "\<not> set (pcs s) \<subseteq> {NotLaunched}" using assms(3) by blast
  then show "started s" using assms(1) by (auto simp: consistent_def split: if_splits)
  then show "NotLaunched \<notin> set (pcs s)" using assms(1) by (simp add: consistent_def)
qed

lemma consistent_move:
  assumes c: "consistent s" and i: "i < length (pcs s)"
    and old: "pcs s ! i \<noteq> NotLaunched" and new: "y \<noteq> NotLaunched"
    and run: "running y = running (pcs s ! i)"
    and lost: "(y = Ret113) = (pcs s ! i = Ret113)"
    and permits: "length (buf (rateLimiter p')) + (if holds_permit y then 1 else 0) =
                  length (buf (rateLimiter (pool s))) + (if holds_permit (pcs s ! i) then 1 else 0)"
    and same: "length (workers p') = length (workers (pool s))" "wg p' = wg (pool s)"
      "closed (rateLimiter p') = closed (rateLimiter (pool s))"
      "cap (rateLimiter p') = cap (rateLimiter (pool s))"
      "closed (tasks p') = closed (tasks (pool s))"
      "closed (results p') = closed (results (pool s))"
      "ctx_done p' = ctx_done (pool s)"
      "length (buf (results p')) \<le> cap (results p')"
  shows "consistent (s\<lparr>pool := p', pcs := (pcs s)[i := y]\<rparr>)"
proof -
  note st = consistent_started[OF c i old]
  have n: "NotLaunched \<notin> set ((pcs s)[i := y])"
    using st(2) new by (intro not_in_set_update) auto
  have r: "length (filter running ((pcs s)[i := y])) = length (filter running (pcs s))"
    using length_filter_update[OF i, of running y] run by simp
  have l: "length (filter (\<lambda>c. c = Ret113) ((pcs s)[i := y])) =
           length (filter (\<lambda>c. c = Ret113) (pcs s))"
    using length_filter_update[OF i, of "\<lambda>c. c = Ret113" y] lost by simp
  have h: "length (buf (rateLimiter p')) + length (filter holds_permit ((pcs s)[i := y])) =
           length (buf (rateLimiter (pool s))) + length (filter holds_permit (pcs s))"
    using length_filter_update[OF i, of holds_permit y] permits
    by (simp split: if_splits)
  show ?thesis
    using c st(1) n r l h same
    by (simp add: consistent_def permits_available_def permits_held_def permits_lost_def)
qed

lemma consistent_return:
  assumes c: "consistent s" and i: "i < length (pcs s)"
    and old: "pcs s ! i = L93 \<and> y = Ret95 \<or> pcs s ! i = L98 \<and> y = Ret113"
  shows "consistent (s\<lparr>pool := (pool s)\<lparr>wg := wg (pool s) - 1\<rparr>, pcs := (pcs s)[i := y]\<rparr>)"
proof -
  have o: "pcs s ! i \<noteq> NotLaunched" using old by auto
  note st = consistent_started[OF c i o]
  have n: "NotLaunched \<notin> set ((pcs s)[i := y])"
    using st(2) old by (intro not_in_set_update) auto
  have r: "length (filter running ((pcs s)[i := y])) + 1 = length (filter running (pcs s))"
    using length_filter_update[OF i, of running y] old by auto
  have l: "length (filter holds_permit ((pcs s)[i := y]))
             + length (filter (\<lambda>c. c = Ret113) ((pcs s)[i := y])) =
           length (filter holds_permit (pcs s)) + length (filter (\<lambda>c. c = Ret113) (pcs s))"
    using length_filter_update[OF i, of "\<lambda>c. c = Ret113" y]
          length_filter_update[OF i, of holds_permit y] old by auto
  show ?thesis
    using c st(1) n r l
    by (simp add: consistent_def permits_available_def permits_held_def permits_lost_def)
qed

lemma consistent_runWorker:
  assumes c: "consistent s" and i: "i < length (pcs s)"
    and r: "runWorker s i (pcs s ! i) ch = Some s'"
  shows "consistent s'"
  using r
proof (cases rule: runWorker_cases)
  case (crash f)
  then show ?thesis using c by (simp add: consistent_crash)
next
  case ret95
  then show ?thesis using consistent_return[OF c i, of Ret95] by simp
next
  case (permit u us)
  have "consistent (s\<lparr>pool := (pool s)\<lparr>rateLimiter := (rateLimiter (pool s))\<lparr>buf := us\<rparr>\<rparr>,
                      pcs := (pcs s)[i := L98]\<rparr>)"
    by (rule consistent_move[OF c i]) (use permit c in \<open>simp_all add: consistent_def\<close>)
  then show ?thesis using permit by simp
next
  case (task t ts)
  have "consistent (s\<lparr>pool := (pool s)\<lparr>tasks := (tasks (pool s))\<lparr>buf := ts\<rparr>\<rparr>,
                      pcs := (pcs s)[i := L101 t]\<rparr>)"
    by (rule consistent_move[OF c i]) (use task c in \<open>simp_all add: consistent_def\<close>)
  then show ?thesis using task by simp
next
  case task_nil
  have "consistent (s\<lparr>pool := pool s, pcs := (pcs s)[i := L101 None]\<rparr>)"
    by (rule consistent_move[OF c i]) (use task_nil c in \<open>simp_all add: consistent_def\<close>)
  then show ?thesis using task_nil by simp
next
  case ret113
  then show ?thesis using consistent_return[OF c i, of Ret113] by simp
next
  case (update t now)
  have "consistent (s\<lparr>pool := (pool s)\<lparr>workers := (workers (pool s))
                         [i := (workers (pool s) ! i)
                                 \<lparr>LastWork := now,
                                  WorkCount := WorkCount (workers (pool s) ! i) + 1\<rparr>]\<rparr>,
                      pcs := (pcs s)[i := L107 t]\<rparr>)"
    by (rule consistent_move[OF c i]) (use update c in \<open>simp_all add: consistent_def\<close>)
  then show ?thesis using update by simp
next
  case (process t)
  have "consistent (s\<lparr>pool := pool s, pcs := (pcs s)[i := L108 t]\<rparr>)"
    by (rule consistent_move[OF c i]) (use process c in \<open>simp_all add: consistent_def\<close>)
  then show ?thesis using process by simp
next
  case (send t)
  have "consistent (s\<lparr>pool := (pool s)\<lparr>results := push t (results (pool s))\<rparr>,
                      pcs := (pcs s)[i := L111]\<rparr>)"
    by (rule consistent_move[OF c i])
       (use send c in \<open>simp_all add: consistent_def push_def has_room_def\<close>)
  then show ?thesis using send by simp
next
  case (sendto t)
  have "consistent (s\<lparr>pool := pool s, pcs := (pcs s)[i := L111]\<rparr>)"
    by (rule consistent_move[OF c i]) (use sendto c in \<open>simp_all add: consistent_def\<close>)
  moreover have "consistent s' = consistent (s\<lparr>pool := pool s, pcs := (pcs s)[i := L111]\<rparr>)"
    by (rule consistent_cong) (simp_all add: sendto)
  ultimately show ?thesis by simp
next
  case release
  have "consistent (s\<lparr>pool := (pool s)\<lparr>rateLimiter := push () (rateLimiter (pool s))\<rparr>,
                      pcs := (pcs s)[i := L93]\<rparr>)"
    by (rule consistent_move[OF c i]) (use release c in \<open>simp_all add: consistent_def push_def\<close>)
  then show ?thesis using release by simp
next
  case permit_closed
  then show ?thesis using c by (simp add: consistent_def)
qed

subsection \<open>Facts every run keeps\<close>

lemma consistent_Start:
  assumes c: "consistent s" and n: "\<not> started s"
  shows "consistent (s\<lparr>started := True,
                pool := (pool s)\<lparr>wg := wg (pool s) + length (workers (pool s))\<rparr>,
                pcs := map (\<lambda>_. L93) (pcs s)\<rparr>)"
proof -
  have "set (pcs s) \<subseteq> {NotLaunched}" using c n by (simp add: consistent_def)
  then have e: "filter running (pcs s) = []" "filter holds_permit (pcs s) = []"
    "filter (\<lambda>c. c = Ret113) (pcs s) = []"
    by (auto simp: filter_empty_conv)
  have m: "filter running (map (\<lambda>_. L93) (pcs s)) = map (\<lambda>_. L93) (pcs s)"
    "filter holds_permit (map (\<lambda>_. L93) (pcs s)) = []"
    "filter (\<lambda>c. c = Ret113) (map (\<lambda>_. L93) (pcs s)) = []"
    by (simp_all add: filter_map comp_def)
  have k: "NotLaunched \<notin> set (map (\<lambda>_. L93) (pcs s))" by auto
  have w: "wg (pool s) = 0" using c e by (simp add: consistent_def)
  have p: "permits_available s + permits_held s + permits_lost s = length (workers (pool s))"
    using c by (simp add: consistent_def)
  show ?thesis
    unfolding consistent_def
    apply (intro conjI)
    subgoal using c by (simp add: consistent_def)
    subgoal using w m c by (simp add: consistent_def)
    subgoal using c by (simp add: consistent_def)
    subgoal using c by (simp add: consistent_def)
    subgoal using p e m by (simp add: permits_available_def permits_held_def permits_lost_def)
    subgoal using c by (simp add: consistent_def)
    subgoal using c by (simp add: consistent_def)
    subgoal using c by (simp add: consistent_def)
    subgoal using c by (simp add: consistent_def)
    subgoal using k by (simp del: set_map)
    done
qed


lemma consistent_boot:
  assumes "NewStatefulPool w q d now = Inr p"
  shows "consistent (boot p)"
proof -
  have p: "p = \<lparr>workers = map (\<lambda>i. \<lparr>ID = int i, LastWork = now i, WorkCount = 0\<rparr>) [0 ..< nat w],
             tasks = make_chan (nat q), results = make_chan (nat q), done_ch = make_chan 0,
             wg = 0, ctx_done = False,
             rateLimiter = (make_chan (nat w))\<lparr>buf := replicate (nat w) ()\<rparr>\<rparr>"
    using assms by (simp add: NewStatefulPool_def split: if_splits)
  have f: "filter running (replicate (nat w) (NotLaunched :: 'a pc)) = []"
    "filter holds_permit (replicate (nat w) (NotLaunched :: 'a pc)) = []"
    "filter (\<lambda>c. c = Ret113) (replicate (nat w) (NotLaunched :: 'a pc)) = []"
    by simp_all
  have k: "set (replicate (nat w) (NotLaunched :: 'a pc)) \<subseteq> {NotLaunched}" by auto
  show ?thesis
    unfolding consistent_def
    apply (intro conjI)
    subgoal by (simp add: p boot_def)
    subgoal using f by (simp add: p boot_def)
    subgoal by (simp add: p boot_def make_chan_def)
    subgoal by (simp add: p boot_def make_chan_def)
    subgoal using f
      by (simp add: p boot_def make_chan_def permits_available_def permits_held_def permits_lost_def)
    subgoal by (simp add: p boot_def make_chan_def)
    subgoal by (simp add: p boot_def make_chan_def)
    subgoal by (simp add: p boot_def make_chan_def)
    subgoal by (simp add: p boot_def make_chan_def)
    subgoal using k by (simp add: p boot_def del: set_replicate)
    done
qed

lemma consistent_fire_Start: assumes c: "consistent s" and f: "fire s Call_Start = Some s'" shows "consistent s'"
proof -
  have "\<not> started s" and "s' = s\<lparr>started := True,
                pool := (pool s)\<lparr>wg := wg (pool s) + length (workers (pool s))\<rparr>,
                pcs := map (\<lambda>_. L93) (pcs s)\<rparr>"
    using f by (simp_all add: fire_Start)
  then show ?thesis using consistent_Start[OF c] by blast
qed



lemma consistent_pool_update:
  assumes c: "consistent s"
    and "pcs s' = pcs s" "started s' = started s"
    and "length (workers (pool s')) = length (workers (pool s))"
    and "wg (pool s') = wg (pool s)"
    and "rateLimiter (pool s') = rateLimiter (pool s)"
    and "closed (tasks (pool s')) = (stop s' = S79 \<or> stop s' = S80 \<or> stop s' = StopReturned)"
    and "closed (results (pool s')) = (stop s' = StopReturned)"
    and "ctx_done (pool s') = (stop s' \<noteq> S77)"
    and "length (buf (results (pool s'))) \<le> cap (results (pool s'))"
  shows "consistent s'"
  using assms
  by (simp add: consistent_def permits_available_def permits_held_def permits_lost_def)

lemma consistent_fire_Submit:
  assumes c: "consistent s" and f: "fire s (Call_Submit t sc) = Some s'"
  shows "consistent s'"
proof (cases sc)
  case Case_send
  show ?thesis
  proof (cases "closed (tasks (pool s))")
    case True
    then have "s' = crash SendOnClosedChannel s" using f Case_send by (simp add: fire_Submit_send)
    then show ?thesis using c by (simp add: consistent_crash)
  next
    case False
    then have s': "s' = s\<lparr>pool := (pool s)\<lparr>tasks := push t (tasks (pool s))\<rparr>,
                     accepted := accepted s @ [t]\<rparr>"
      using f Case_send by (simp add: fire_Submit_send)
    show ?thesis
      by (rule consistent_pool_update[OF c]) (use c in \<open>simp_all add: s' push_def consistent_def\<close>)
  qed
next
  case Case_done
  then show ?thesis using c f by (simp add: fire_Submit_done)
qed


lemma consistent_fire_Stop:
  assumes c: "consistent s" and f: "fire s Stop_next = Some s'"
  shows "consistent s'"
proof (cases "stop s")
  case S77
  then have s': "s' = s\<lparr>pool := (pool s)\<lparr>ctx_done := True\<rparr>, stop := S78\<rparr>"
    using f by (simp add: fire_Stop)
  show ?thesis
    by (rule consistent_pool_update[OF c]) (use c S77 in \<open>simp_all add: s' consistent_def\<close>)
next
  case S78
  show ?thesis
  proof (cases "closed (tasks (pool s))")
    case True
    then have "s' = crash CloseOfClosedChannel s" using f S78 by (simp add: fire_Stop)
    then show ?thesis using c by (simp add: consistent_crash)
  next
    case False
    then have s': "s' = s\<lparr>pool := (pool s)\<lparr>tasks := (tasks (pool s))\<lparr>closed := True\<rparr>\<rparr>,
                            stop := S79\<rparr>"
      using f S78 by (simp add: fire_Stop)
    show ?thesis
      by (rule consistent_pool_update[OF c]) (use c S78 in \<open>simp_all add: s' consistent_def\<close>)
  qed
next
  case S79
  then have s': "s' = s\<lparr>stop := S80\<rparr>" using f by (simp add: fire_Stop)
  show ?thesis
    by (rule consistent_pool_update[OF c]) (use c S79 in \<open>simp_all add: s' consistent_def\<close>)
next
  case S80
  show ?thesis
  proof (cases "closed (results (pool s))")
    case True
    then have "s' = crash CloseOfClosedChannel s" using f S80 by (simp add: fire_Stop)
    then show ?thesis using c by (simp add: consistent_crash)
  next
    case False
    then have s': "s' = s\<lparr>pool := (pool s)\<lparr>results := (results (pool s))\<lparr>closed := True\<rparr>\<rparr>,
                            stop := StopReturned\<rparr>"
      using f S80 by (simp add: fire_Stop)
    show ?thesis
      by (rule consistent_pool_update[OF c]) (use c S80 in \<open>simp_all add: s' consistent_def\<close>)
  qed
next
  case StopReturned
  then show ?thesis using f by (simp add: fire_Stop)
qed

lemma consistent_fire_Consume:
  assumes c: "consistent s" and f: "fire s Consume = Some s'"
  shows "consistent s'"
proof (cases "buf (results (pool s))")
  case Nil
  then show ?thesis using f by (simp add: fire_Consume)
next
  case (Cons r rs)
  then have s': "s' = s\<lparr>pool := (pool s)\<lparr>results := (results (pool s))\<lparr>buf := rs\<rparr>\<rparr>,
                           delivered := delivered s @ [r]\<rparr>"
    using f by (simp add: fire_Consume)
  show ?thesis
    by (rule consistent_pool_update[OF c]) (use c Cons in \<open>simp_all add: s' consistent_def\<close>)
qed

lemma consistent_fire_Submit_to:
  assumes c: "consistent s" and f: "fire s (Submit_to t i) = Some s'"
  shows "consistent s'"
proof -
  have i: "i < length (pcs s)" and at: "pcs s ! i = L98"
    and s': "s' = s\<lparr>pcs := (pcs s)[i := L101 t], accepted := accepted s @ [t]\<rparr>"
    using f by (simp_all add: fire_Submit_to)
  have "consistent (s\<lparr>pool := pool s, pcs := (pcs s)[i := L101 t]\<rparr>)"
    by (rule consistent_move[OF c i]) (use at c in \<open>simp_all add: consistent_def\<close>)
  moreover have "consistent s' = consistent (s\<lparr>pool := pool s, pcs := (pcs s)[i := L101 t]\<rparr>)"
    by (rule consistent_cong) (simp_all add: s')
  ultimately show ?thesis by simp
qed

lemma consistent_fire:
  assumes c: "consistent s" and f: "fire s a = Some s'"
  shows "consistent s'"
proof (cases a)
  case Call_Start
  then show ?thesis using c f consistent_fire_Start by blast
next
  case (Call_Submit t sc)
  then show ?thesis using c f consistent_fire_Submit by blast
next
  case (Submit_to t i)
  then show ?thesis using c f consistent_fire_Submit_to by blast
next
  case Stop_next
  then show ?thesis using c f consistent_fire_Stop by blast
next
  case (Worker i ch)
  then have "i < length (pcs s)" and "runWorker s i (pcs s ! i) ch = Some s'"
    using f by (simp_all add: fire_Worker)
  then show ?thesis using c by (rule consistent_runWorker[rotated])
next
  case Consume
  then show ?thesis using c f consistent_fire_Consume by blast
qed

lemma consistent_run: "consistent s \<Longrightarrow> run s acts = Some s' \<Longrightarrow> consistent s'"
proof (induction acts arbitrary: s)
  case Nil
  then show ?case by simp
next
  case (Cons a acts)
  from Cons.prems(2) obtain s1 where f: "fire s a = Some s1" and r: "run s1 acts = Some s'"
    by (cases "fire s a") simp_all
  have "consistent s1" using Cons.prems(1) f by (rule consistent_fire)
  then show ?case using r by (rule Cons.IH)
qed


subsection \<open>Evaluating concrete runs\<close>

lemmas exec_simps = NewStatefulPool_def boot_def fire_def Start_def Stop_step_def runWorker_def
  wg_Done_def Submit_def send_def close_chan_def make_chan_def can_recv_def recv_def push_def
  has_room_def crash_def processTask_def

subsection \<open>The constructor\<close>

text \<open>
  C10. The argument \<open>rateLimit\<close> of \<open>NewStatefulPool\<close> has no effect: two calls that
  differ only in it return the same pool (or the same panic), so every run of the two
  pools is the same; and the limiter of the pool holds as many permits as it has
  capacity, one per worker.
\<close>

theorem NewStatefulPool_rateLimit_unused:
  "(NewStatefulPool w q d1 now :: fault + 'a StatefulPool) = NewStatefulPool w q d2 now \<and>
   (\<forall>p. (NewStatefulPool w q d1 now :: fault + 'a StatefulPool) = Inr p \<longrightarrow>
        cap (rateLimiter p) = length (workers p) \<and>
        length (buf (rateLimiter p)) = length (workers p) \<and>
        int (length (workers p)) = w)"
  by (auto simp: NewStatefulPool_def make_chan_def)

theorem NewStatefulPool_rateLimit_unused_witness:
  "(NewStatefulPool 2 10 100000000 (\<lambda>_. 0) :: fault + nat StatefulPool)
      = NewStatefulPool 2 10 200000000 (\<lambda>_. 0) \<and>
   (\<exists>p :: nat StatefulPool. NewStatefulPool 2 10 100000000 (\<lambda>_. 0) = Inr p \<and>
        cap (rateLimiter p) = 2 \<and> length (buf (rateLimiter p)) = 2 \<and> length (workers p) = 2)"
proof -
  obtain p :: "nat StatefulPool" where p: "NewStatefulPool 2 10 100000000 (\<lambda>_. 0) = Inr p"
    by (simp add: NewStatefulPool_def)
  have "cap (rateLimiter p) = length (workers p) \<and>
        length (buf (rateLimiter p)) = length (workers p) \<and>
        int (length (workers p)) = 2"
    using NewStatefulPool_rateLimit_unused [of 2 10 100000000 "\<lambda>_. 0" 200000000,
        where ?'a = nat] p by blast
  moreover have "(NewStatefulPool 2 10 100000000 (\<lambda>_. 0) :: fault + nat StatefulPool)
      = NewStatefulPool 2 10 200000000 (\<lambda>_. 0)"
    using NewStatefulPool_rateLimit_unused [of 2 10 100000000 "\<lambda>_. 0" 200000000,
        where ?'a = nat] by blast
  ultimately show ?thesis using p by (intro conjI exI[of _ p]) simp_all
qed

subsection \<open>Submit after Stop\<close>

text \<open>
  C1. \<open>NewStatefulPool(2, 10, 100ms)\<close>, \<open>Start()\<close>, \<open>Stop()\<close> run to its end (both
  workers return on cancellation), then \<open>Submit(6)\<close>: both cases of the \<open>select\<close> are
  ready. The case \<open><-p.ctx.Done()\<close> returns the error \<open>context.Canceled\<close>; the case
  \<open>p.tasks <- task\<close> is a send on the closed channel and panics.
\<close>

theorem Submit_after_Stop_may_panic:
  "\<exists>(p :: nat StatefulPool) s.
     NewStatefulPool 2 10 100000000 (\<lambda>_. 0) = Inr p \<and>
     run (boot p) [Call_Start, Stop_next, Stop_next, Worker 0 TakeDone, Worker 1 TakeDone,
                   Stop_next, Stop_next] = Some s \<and>
     stop s = StopReturned \<and> crashed s = None \<and>
     Submit (pool s) (Some 6) Case_send = Some (Panics SendOnClosedChannel) \<and>
     Submit (pool s) (Some 6) Case_done = Some (Returns (Some Canceled) (pool s)) \<and>
     (\<exists>s'. fire s (Call_Submit (Some 6) Case_send) = Some s' \<and>
           crashed s' = Some SendOnClosedChannel)"
  by (simp add: exec_simps eval_nat_numeral)


subsection \<open>The actions, case by case\<close>

lemma fire_cases [consumes 1, case_names crash start submit submit_err handoff cancel close_tasks
    wait close_results ret95 permit task task_nil ret113 update process send sendto release
    consume permit_closed]:
  assumes f: "fire s a = Some s'"
  obtains
    e where "s' = crash e s"
  | "a = Call_Start" "\<not> started s"
      "s' = s\<lparr>started := True,
                pool := (pool s)\<lparr>wg := wg (pool s) + length (workers (pool s))\<rparr>,
                pcs := map (\<lambda>_. L93) (pcs s)\<rparr>"
  | t where "a = Call_Submit t Case_send" "\<not> closed (tasks (pool s))"
      "has_room (tasks (pool s))"
      "s' = s\<lparr>pool := (pool s)\<lparr>tasks := push t (tasks (pool s))\<rparr>, accepted := accepted s @ [t]\<rparr>"
  | t where "a = Call_Submit t Case_done" "ctx_done (pool s)" "s' = s"
  | t i where "a = Submit_to t i" "i < length (pcs s)" "pcs s ! i = L98"
      "\<not> closed (tasks (pool s))" "buf (tasks (pool s)) = []" "\<not> ctx_done (pool s)"
      "s' = s\<lparr>pcs := (pcs s)[i := L101 t], accepted := accepted s @ [t]\<rparr>"
  | "a = Stop_next" "stop s = S77"
      "s' = s\<lparr>pool := (pool s)\<lparr>ctx_done := True\<rparr>, stop := S78\<rparr>"
  | "a = Stop_next" "stop s = S78" "\<not> closed (tasks (pool s))"
      "s' = s\<lparr>pool := (pool s)\<lparr>tasks := (tasks (pool s))\<lparr>closed := True\<rparr>\<rparr>, stop := S79\<rparr>"
  | "a = Stop_next" "stop s = S79" "wg (pool s) = 0" "s' = s\<lparr>stop := S80\<rparr>"
  | "a = Stop_next" "stop s = S80" "\<not> closed (results (pool s))"
      "s' = s\<lparr>pool := (pool s)\<lparr>results := (results (pool s))\<lparr>closed := True\<rparr>\<rparr>,
                stop := StopReturned\<rparr>"
  | i where "a = Worker i TakeDone" "i < length (pcs s)" "pcs s ! i = L93"
      "ctx_done (pool s)" "wg (pool s) \<noteq> 0"
      "s' = s\<lparr>pool := (pool s)\<lparr>wg := wg (pool s) - 1\<rparr>, pcs := (pcs s)[i := Ret95]\<rparr>"
  | i u us where "a = Worker i TakePermit" "i < length (pcs s)" "pcs s ! i = L93"
      "buf (rateLimiter (pool s)) = u # us"
      "s' = s\<lparr>pool := (pool s)\<lparr>rateLimiter := (rateLimiter (pool s))\<lparr>buf := us\<rparr>\<rparr>,
                pcs := (pcs s)[i := L98]\<rparr>"
  | i t ts where "a = Worker i TakeTask" "i < length (pcs s)" "pcs s ! i = L98"
      "buf (tasks (pool s)) = t # ts"
      "s' = s\<lparr>pool := (pool s)\<lparr>tasks := (tasks (pool s))\<lparr>buf := ts\<rparr>\<rparr>,
                pcs := (pcs s)[i := L101 t]\<rparr>"
  | i where "a = Worker i TakeTask" "i < length (pcs s)" "pcs s ! i = L98"
      "buf (tasks (pool s)) = []" "closed (tasks (pool s))"
      "s' = s\<lparr>pcs := (pcs s)[i := L101 None]\<rparr>"
  | i where "a = Worker i TakeDone" "i < length (pcs s)" "pcs s ! i = L98"
      "ctx_done (pool s)" "wg (pool s) \<noteq> 0"
      "s' = s\<lparr>pool := (pool s)\<lparr>wg := wg (pool s) - 1\<rparr>, pcs := (pcs s)[i := Ret113]\<rparr>"
  | i t now where "a = Worker i (Update now)" "i < length (pcs s)" "pcs s ! i = L101 t"
      "s' = s\<lparr>pool := (pool s)\<lparr>workers := (workers (pool s))
                         [i := (workers (pool s) ! i)
                                 \<lparr>LastWork := now,
                                  WorkCount := WorkCount (workers (pool s) ! i) + 1\<rparr>]\<rparr>,
                pcs := (pcs s)[i := L107 t]\<rparr>"
  | i t where "a = Worker i Process" "i < length (pcs s)" "pcs s ! i = L107 t"
      "s' = s\<lparr>pcs := (pcs s)[i := L108 t]\<rparr>"
  | i t where "a = Worker i Send" "i < length (pcs s)" "pcs s ! i = L108 t"
      "\<not> closed (results (pool s))" "has_room (results (pool s))"
      "s' = s\<lparr>pool := (pool s)\<lparr>results := push t (results (pool s))\<rparr>,
                pcs := (pcs s)[i := L111]\<rparr>"
  | i t where "a = Worker i SendTo" "i < length (pcs s)" "pcs s ! i = L108 t"
      "\<not> closed (results (pool s))" "buf (results (pool s)) = []"
      "s' = s\<lparr>delivered := delivered s @ [t], pcs := (pcs s)[i := L111]\<rparr>"
  | i where "a = Worker i Release" "i < length (pcs s)" "pcs s ! i = L111"
      "\<not> closed (rateLimiter (pool s))" "has_room (rateLimiter (pool s))"
      "s' = s\<lparr>pool := (pool s)\<lparr>rateLimiter := push () (rateLimiter (pool s))\<rparr>,
                pcs := (pcs s)[i := L93]\<rparr>"
  | r rs where "a = Consume" "buf (results (pool s)) = r # rs"
      "s' = s\<lparr>pool := (pool s)\<lparr>results := (results (pool s))\<lparr>buf := rs\<rparr>\<rparr>,
                delivered := delivered s @ [r]\<rparr>"
  | i where "a = Worker i TakePermit" "i < length (pcs s)" "pcs s ! i = L93"
      "buf (rateLimiter (pool s)) = []" "closed (rateLimiter (pool s))"
      "s' = s\<lparr>pcs := (pcs s)[i := L98]\<rparr>"
proof (cases a)
  case Call_Start
  then have "\<not> started s" and "s' = s\<lparr>started := True,
                pool := (pool s)\<lparr>wg := wg (pool s) + length (workers (pool s))\<rparr>,
                pcs := map (\<lambda>_. L93) (pcs s)\<rparr>"
    using f by (simp_all add: fire_Start)
  then show ?thesis using that(2) Call_Start by blast
next
  case (Call_Submit t sc)
  show ?thesis
  proof (cases sc)
    case Case_send
    show ?thesis
    proof (cases "closed (tasks (pool s))")
      case True
      then have "s' = crash SendOnClosedChannel s"
        using f Call_Submit Case_send by (simp add: fire_Submit_send)
      then show ?thesis by (rule that(1))
    next
      case False
      then have "has_room (tasks (pool s))"
        and "s' = s\<lparr>pool := (pool s)\<lparr>tasks := push t (tasks (pool s))\<rparr>,
                     accepted := accepted s @ [t]\<rparr>"
        using f Call_Submit Case_send by (simp_all add: fire_Submit_send)
      then show ?thesis using that(3) Call_Submit Case_send False by blast
    qed
  next
    case Case_done
    then have "ctx_done (pool s)" and "s' = s"
      using f Call_Submit by (simp_all add: fire_Submit_done)
    then show ?thesis using that(4) Call_Submit Case_done by blast
  qed
next
  case (Submit_to t i)
  then have "i < length (pcs s)" "pcs s ! i = L98"
      "\<not> closed (tasks (pool s))" "buf (tasks (pool s)) = []" "\<not> ctx_done (pool s)"
      "s' = s\<lparr>pcs := (pcs s)[i := L101 t], accepted := accepted s @ [t]\<rparr>"
    using f by (simp_all add: fire_Submit_to)
  then show ?thesis using that(5) Submit_to by blast
next
  case Stop_next
  show ?thesis
  proof (cases "stop s")
    case S77
    then have "s' = s\<lparr>pool := (pool s)\<lparr>ctx_done := True\<rparr>, stop := S78\<rparr>"
      using f Stop_next by (simp add: fire_Stop)
    then show ?thesis using that(6) Stop_next S77 by blast
  next
    case S78
    show ?thesis
    proof (cases "closed (tasks (pool s))")
      case True
      then have "s' = crash CloseOfClosedChannel s" using f Stop_next S78 by (simp add: fire_Stop)
      then show ?thesis by (rule that(1))
    next
      case False
      then have "s' = s\<lparr>pool := (pool s)\<lparr>tasks := (tasks (pool s))\<lparr>closed := True\<rparr>\<rparr>,
                            stop := S79\<rparr>"
        using f Stop_next S78 by (simp add: fire_Stop)
      then show ?thesis using that(7) Stop_next S78 False by blast
    qed
  next
    case S79
    then have "wg (pool s) = 0" and "s' = s\<lparr>stop := S80\<rparr>"
      using f Stop_next by (simp_all add: fire_Stop)
    then show ?thesis using that(8) Stop_next S79 by blast
  next
    case S80
    show ?thesis
    proof (cases "closed (results (pool s))")
      case True
      then have "s' = crash CloseOfClosedChannel s" using f Stop_next S80 by (simp add: fire_Stop)
      then show ?thesis by (rule that(1))
    next
      case False
      then have "s' = s\<lparr>pool := (pool s)\<lparr>results := (results (pool s))\<lparr>closed := True\<rparr>\<rparr>,
                            stop := StopReturned\<rparr>"
        using f Stop_next S80 by (simp add: fire_Stop)
      then show ?thesis using that(9) Stop_next S80 False by blast
    qed
  next
    case StopReturned
    then show ?thesis using f Stop_next by (simp add: fire_Stop)
  qed
next
  case (Worker i ch)
  then have i: "i < length (pcs s)" and r: "runWorker s i (pcs s ! i) ch = Some s'"
    using f by (simp_all add: fire_Worker)
  from r show ?thesis
  proof (cases rule: runWorker_cases)
    case (crash e)
    then show ?thesis by (rule that(1))
  next
    case ret95
    then show ?thesis using that(10) Worker i by blast
  next
    case (permit u us)
    then show ?thesis using that(11) Worker i by blast
  next
    case (task t ts)
    then show ?thesis using that(12) Worker i by blast
  next
    case task_nil
    then show ?thesis using that(13) Worker i by blast
  next
    case ret113
    then show ?thesis using that(14) Worker i by blast
  next
    case (update t now)
    then show ?thesis using that(15) Worker i by blast
  next
    case (process t)
    then show ?thesis using that(16) Worker i by blast
  next
    case (send t)
    then show ?thesis using that(17) Worker i by blast
  next
    case (sendto t)
    then show ?thesis using that(18) Worker i by blast
  next
    case release
    then show ?thesis using that(19) Worker i by blast
  next
    case permit_closed
    then show ?thesis using that(21) Worker i by blast
  qed
next
  case Consume
  show ?thesis
  proof (cases "buf (results (pool s))")
    case Nil
    then show ?thesis using f Consume by (simp add: fire_Consume)
  next
    case (Cons r rs)
    then have "s' = s\<lparr>pool := (pool s)\<lparr>results := (results (pool s))\<lparr>buf := rs\<rparr>\<rparr>,
                           delivered := delivered s @ [r]\<rparr>"
      using f Consume by (simp add: fire_Consume)
    then show ?thesis using that(20) Consume Cons by blast
  qed
qed


subsection \<open>Counting over the workers\<close>

lemma sum_list_map_update:
  fixes f :: "'a \<Rightarrow> 'b::comm_monoid_add"
  assumes "i < length xs"
  shows "sum_list (map f (xs[i := y])) + f (xs ! i) = sum_list (map f xs) + f y"
proof -
  have a: "xs[i := y] = take i xs @ y # drop (Suc i) xs"
    using assms by (rule upd_conv_take_nth_drop)
  have "sum_list (map f xs) = sum_list (map f (take i xs @ xs ! i # drop (Suc i) xs))"
    using id_take_nth_drop[OF assms] by (rule arg_cong)
  then show ?thesis by (simp add: a ac_simps)
qed


lemma counted_move:
  assumes "i < length (pcs s)"
  shows "sum_list (map counted ((pcs s)[i := y])) + counted (pcs s ! i) =
         sum_list (map counted (pcs s)) + counted y"
  using assms by (rule sum_list_map_update)

text \<open>
  How an action changes the work counters and the number of locked updates done: the
  locked section adds one to both, every other action leaves both as they are.
\<close>

lemma not_launched_counts:
  assumes "set xs \<subseteq> {NotLaunched}"
  shows "sum_list (map counted xs) = 0" and "concat (map task_of xs) = []"
  using assms by (induction xs) auto

lemma consistent_not_started:
  "consistent s \<Longrightarrow> \<not> started s \<Longrightarrow> set (pcs s) \<subseteq> {NotLaunched}"
  by (simp add: consistent_def)

lemma work_step:
  assumes c: "consistent s" and f: "fire s a = Some s'"
  shows "(workers (pool s') = workers (pool s) \<and> updates_done s' = updates_done s) \<or>
         (\<exists>i now. i < length (pcs s) \<and>
            workers (pool s') = (workers (pool s))
               [i := (workers (pool s) ! i)
                       \<lparr>LastWork := now, WorkCount := WorkCount (workers (pool s) ! i) + 1\<rparr>] \<and>
            updates_done s' = updates_done s + 1)"
  using f
proof (cases rule: fire_cases)
  case (crash e)
  then show ?thesis by (simp add: crash_def updates_done_def produced_def)
next
  case start
  then show ?thesis using not_launched_counts(1)[OF consistent_not_started[OF c]]
    by (simp add: updates_done_def produced_def comp_def)
next
  case (submit t)
  then show ?thesis by (simp add: updates_done_def produced_def push_def)
next
  case (submit_err t)
  then show ?thesis by simp
next
  case (handoff t i)
  then show ?thesis using counted_move[of i s "L101 t"]
    by (simp add: updates_done_def produced_def)
next
  case cancel
  then show ?thesis by (simp add: updates_done_def produced_def)
next
  case close_tasks
  then show ?thesis by (simp add: updates_done_def produced_def)
next
  case wait
  then show ?thesis by (simp add: updates_done_def produced_def)
next
  case close_results
  then show ?thesis by (simp add: updates_done_def produced_def)
next
  case (ret95 i)
  then show ?thesis using counted_move[of i s Ret95]
    by (simp add: updates_done_def produced_def)
next
  case (permit i u us)
  then show ?thesis using counted_move[of i s L98]
    by (simp add: updates_done_def produced_def)
next
  case (task i t ts)
  then show ?thesis using counted_move[of i s "L101 t"]
    by (simp add: updates_done_def produced_def)
next
  case (task_nil i)
  then show ?thesis using counted_move[of i s "L101 None"]
    by (simp add: updates_done_def produced_def)
next
  case (ret113 i)
  then show ?thesis using counted_move[of i s Ret113]
    by (simp add: updates_done_def produced_def)
next
  case (update i t now)
  have "updates_done s' = updates_done s + 1"
    using update counted_move[of i s "L107 t"] by (simp add: updates_done_def produced_def)
  then show ?thesis using update by auto
next
  case (process i t)
  then show ?thesis using counted_move[of i s "L108 t"]
    by (simp add: updates_done_def produced_def)
next
  case (send i t)
  then show ?thesis using counted_move[of i s L111]
    by (simp add: updates_done_def produced_def push_def)
next
  case (sendto i t)
  then show ?thesis using counted_move[of i s L111]
    by (simp add: updates_done_def produced_def)
next
  case (release i)
  then show ?thesis using counted_move[of i s L93]
    by (simp add: updates_done_def produced_def push_def)
next
  case (consume r rs)
  then show ?thesis by (simp add: updates_done_def produced_def)
next
  case (permit_closed i)
  then show ?thesis using c by (simp add: consistent_def)
qed


lemma counted_quiescent: "concat (map task_of xs) = [] \<Longrightarrow> sum_list (map counted xs) = 0"
proof (induction xs)
  case Nil
  then show ?case by simp
next
  case (Cons x xs)
  then show ?case by (cases x) simp_all
qed

lemma unat_le_sum_list:
  assumes "i < length ws"
  shows "unat (WorkCount (ws ! i)) \<le> sum_list (map (\<lambda>w. unat (WorkCount w)) ws)"
proof -
  have "ws ! i \<in> set ws" using assms by (rule nth_mem)
  then have "unat (WorkCount (ws ! i)) \<in> set (map (\<lambda>w. unat (WorkCount w)) ws)"
    by simp
  then show ?thesis by (intro member_le_sum_list) simp_all
qed

lemma unat_plus_one:
  fixes x :: "64 word"
  assumes "unat x < 2^63"
  shows "unat (x + 1) = unat x + 1"
proof -
  have "(2::nat)^63 < 2^64" by simp
  then have "unat x + unat (1 :: 64 word) < 2 ^ LENGTH(64)" using assms by simp
  then have "unat (x + 1) = unat x + unat (1 :: 64 word)" by (simp only: unat_add_lem)
  then show ?thesis by simp
qed

lemma counts_fire:
  assumes c: "consistent s" and k: "counts_exact s" and f: "fire s a = Some s'"
  shows "counts_exact s'"
proof -
  from work_step[OF c f] show ?thesis
  proof
    assume "workers (pool s') = workers (pool s) \<and> updates_done s' = updates_done s"
    then show ?thesis using k by (simp add: counts_exact_def)
  next
    assume "\<exists>i now. i < length (pcs s) \<and>
            workers (pool s') = (workers (pool s))
               [i := (workers (pool s) ! i)
                       \<lparr>LastWork := now, WorkCount := WorkCount (workers (pool s) ! i) + 1\<rparr>] \<and>
            updates_done s' = updates_done s + 1"
    then obtain i now where i: "i < length (pcs s)"
      and w: "workers (pool s') = (workers (pool s))
               [i := (workers (pool s) ! i)
                       \<lparr>LastWork := now, WorkCount := WorkCount (workers (pool s) ! i) + 1\<rparr>]"
      and u: "updates_done s' = updates_done s + 1"
      by blast
    have iw: "i < length (workers (pool s))" using i c by (simp add: consistent_def)
    let ?ws = "workers (pool s)"
    let ?w' = "(?ws ! i)\<lparr>LastWork := now, WorkCount := WorkCount (?ws ! i) + 1\<rparr>"
    have "sum_list (map WorkCount (?ws[i := ?w'])) + WorkCount (?ws ! i) =
          sum_list (map WorkCount ?ws) + WorkCount ?w'"
      using iw by (rule sum_list_map_update)
    then have "sum_list (map WorkCount (?ws[i := ?w'])) = sum_list (map WorkCount ?ws) + 1"
      by simp
    then have word: "sum_list (map WorkCount (workers (pool s'))) = of_nat (updates_done s')"
      using k w u by (simp add: counts_exact_def)
    have nat: "sum_list (map (\<lambda>w. unat (WorkCount w)) (workers (pool s'))) = updates_done s'"
      if b: "updates_done s' < 2^63"
    proof -
      have b0: "updates_done s < 2^63" using b u by simp
      then have e: "sum_list (map (\<lambda>w. unat (WorkCount w)) ?ws) = updates_done s"
        using k by (simp add: counts_exact_def)
      have "unat (WorkCount (?ws ! i)) \<le> updates_done s"
        using unat_le_sum_list[OF iw] e by simp
      then have "unat (WorkCount (?ws ! i)) < 2^63" using b0 by linarith
      then have p1: "unat (WorkCount (?ws ! i) + 1) = unat (WorkCount (?ws ! i)) + 1"
        by (rule unat_plus_one)
      have "sum_list (map (\<lambda>w. unat (WorkCount w)) (?ws[i := ?w'])) + unat (WorkCount (?ws ! i)) =
            sum_list (map (\<lambda>w. unat (WorkCount w)) ?ws) + unat (WorkCount ?w')"
        using iw by (rule sum_list_map_update)
      then have "sum_list (map (\<lambda>w. unat (WorkCount w)) (?ws[i := ?w'])) =
                 sum_list (map (\<lambda>w. unat (WorkCount w)) ?ws) + 1"
        using p1 by simp
      then show ?thesis using e w u by simp
    qed
    show ?thesis using word nat by (simp add: counts_exact_def)
  qed
qed

lemma counts_run:
  "consistent s \<Longrightarrow> counts_exact s \<Longrightarrow> run s acts = Some s' \<Longrightarrow> counts_exact s'"
proof (induction acts arbitrary: s)
  case Nil
  then show ?case by simp
next
  case (Cons a acts)
  from Cons.prems(3) obtain s1 where f: "fire s a = Some s1" and r: "run s1 acts = Some s'"
    by (cases "fire s a") simp_all
  have "consistent s1" using Cons.prems(1) f by (rule consistent_fire)
  moreover have "counts_exact s1" using Cons.prems(1,2) f by (rule counts_fire)
  ultimately show ?case using r by (rule Cons.IH)
qed

lemma counts_boot:
  assumes "NewStatefulPool w q d now = Inr p"
  shows "counts_exact (boot p)"
proof -
  have p: "p = \<lparr>workers = map (\<lambda>i. \<lparr>ID = int i, LastWork = now i, WorkCount = 0\<rparr>) [0 ..< nat w],
             tasks = make_chan (nat q), results = make_chan (nat q), done_ch = make_chan 0,
             wg = 0, ctx_done = False,
             rateLimiter = (make_chan (nat w))\<lparr>buf := replicate (nat w) ()\<rparr>\<rparr>"
    using assms by (simp add: NewStatefulPool_def split: if_splits)
  have "updates_done (boot p) = 0"
    by (simp add: updates_done_def produced_def boot_def p make_chan_def)
  moreover have "sum_list (map WorkCount (workers p)) = 0"
    by (simp add: p comp_def)
  moreover have "sum_list (map (\<lambda>w. unat (WorkCount w)) (workers p)) = 0"
    by (simp add: p comp_def)
  ultimately show ?thesis by (simp add: counts_exact_def boot_def)
qed

lemma sum_sint_eq_sum_unat:
  assumes "sum_list (map (\<lambda>w. unat (WorkCount w)) ws) < 2^63"
  shows "sum_list (map (\<lambda>w. sint (WorkCount w)) ws) =
         int (sum_list (map (\<lambda>w. unat (WorkCount w)) ws))"
  using assms
proof (induction ws)
  case Nil
  then show ?case by simp
next
  case (Cons x xs)
  have "unat (WorkCount x) < 2^63" using Cons.prems by simp
  then have "sint (WorkCount x) = int (unat (WorkCount x))" by (rule sint_small)
  moreover have "sum_list (map (\<lambda>w. unat (WorkCount w)) xs) < 2^63" using Cons.prems by simp
  ultimately show ?case using Cons.IH by simp
qed

subsection \<open>Work counters\<close>

text \<open>
  C9. In every state of a run in which no worker holds a task, the sum of \<open>WorkCount\<close>
  over the entries of \<open>GetWorkerStats()\<close> (as the test adds them, in \<open>int64\<close>) is the
  number of results sent on \<open>p.results\<close>; below \<open>2 ^ 63\<close> results the counters have not
  wrapped and the sum of their values is that number.
\<close>

theorem WorkCount_sum_equals_results:
  assumes "NewStatefulPool w q d now = Inr p" and "run (boot p) acts = Some s"
    and "quiescent s"
  shows "totalWork (pool s) = of_nat (length (produced s)) \<and>
         (length (produced s) < 2^63 \<longrightarrow>
            sum_list (map (\<lambda>st. sint (stat_WorkCount st)) (GetWorkerStats (pool s)))
              = int (length (produced s)))"
proof -
  have k: "counts_exact s"
    using consistent_boot[OF assms(1)] counts_boot[OF assms(1)] assms(2) by (rule counts_run)
  have "sum_list (map counted (pcs s)) = 0"
    using assms(3) by (simp add: quiescent_def in_flight_def counted_quiescent)
  then have u: "updates_done s = length (produced s)" by (simp add: updates_done_def)
  have t: "totalWork (pool s) = sum_list (map WorkCount (workers (pool s)))"
    by (simp add: totalWork_def GetWorkerStats_def comp_def)
  have g: "sum_list (map (\<lambda>st. sint (stat_WorkCount st)) (GetWorkerStats (pool s)))
             = sum_list (map (\<lambda>w. sint (WorkCount w)) (workers (pool s)))"
    by (simp add: GetWorkerStats_def comp_def)
  have "sum_list (map (\<lambda>w. sint (WorkCount w)) (workers (pool s))) = int (length (produced s))"
    if b: "length (produced s) < 2^63"
  proof -
    have e: "sum_list (map (\<lambda>w. unat (WorkCount w)) (workers (pool s))) = length (produced s)"
      using k u b by (simp add: counts_exact_def)
    then have "sum_list (map (\<lambda>w. unat (WorkCount w)) (workers (pool s))) < 2^63"
      using b by simp
    then show ?thesis using sum_sint_eq_sum_unat e by metis
  qed
  then show ?thesis using k u t g by (simp add: counts_exact_def)
qed


theorem WorkCount_sum_equals_results_witness:
  "\<exists>(p :: nat StatefulPool) s.
     NewStatefulPool 2 10 100000000 (\<lambda>_. 0) = Inr p \<and>
     run (boot p) [Call_Start, Call_Submit (Some 1) Case_send, Worker 0 TakePermit,
                   Worker 0 TakeTask, Worker 0 (Update 5), Worker 0 Process, Worker 0 Send,
                   Worker 0 Release, Consume] = Some s \<and>
     quiescent s \<and> length (produced s) = 1 \<and> totalWork (pool s) = 1 \<and>
     sum_list (map (\<lambda>st. sint (stat_WorkCount st)) (GetWorkerStats (pool s))) = 1"
proof -
  have "\<exists>(p :: nat StatefulPool) s.
     NewStatefulPool 2 10 100000000 (\<lambda>_. 0) = Inr p \<and>
     run (boot p) [Call_Start, Call_Submit (Some 1) Case_send, Worker 0 TakePermit,
                   Worker 0 TakeTask, Worker 0 (Update 5), Worker 0 Process, Worker 0 Send,
                   Worker 0 Release, Consume] = Some s \<and>
     quiescent s \<and> length (produced s) = 1"
    by (simp add: exec_simps eval_nat_numeral quiescent_def in_flight_def produced_def)
  then obtain p :: "nat StatefulPool" and s
    where p: "NewStatefulPool 2 10 100000000 (\<lambda>_. 0) = Inr p"
      and r: "run (boot p) [Call_Start, Call_Submit (Some 1) Case_send, Worker 0 TakePermit,
                   Worker 0 TakeTask, Worker 0 (Update 5), Worker 0 Process, Worker 0 Send,
                   Worker 0 Release, Consume] = Some s"
      and q: "quiescent s" and l: "length (produced s) = 1"
    by blast
  have "totalWork (pool s) = 1 \<and>
     sum_list (map (\<lambda>st. sint (stat_WorkCount st)) (GetWorkerStats (pool s))) = 1"
    using WorkCount_sum_equals_results[OF p r q] l by simp
  then show ?thesis using p r q l by blast
qed

subsection \<open>Permits\<close>

text \<open>
  C3. \<open>NewStatefulPool(2, 10, 100ms)\<close> and \<open>Start()\<close>; worker 0 takes a permit (line 96)
  and waits at the inner \<open>select\<close> on the empty queue; \<open>Stop()\<close> cancels; worker 0
  returns at line 113 without the send of line 111, worker 1 returns at line 95.
  Of the two permits one is in the limiter and none is held: the other is gone.
\<close>

theorem permit_lost_when_worker_returns_at_line_113:
  "\<exists>(p :: nat StatefulPool) s.
     NewStatefulPool 2 10 100000000 (\<lambda>_. 0) = Inr p \<and>
     permits_available (boot p) + permits_held (boot p) = 2 \<and>
     run (boot p) [Call_Start, Worker 0 TakePermit, Stop_next, Worker 0 TakeDone,
                   Worker 1 TakeDone] = Some s \<and>
     pcs s = [Ret113, Ret95] \<and> crashed s = None \<and>
     permits_available s = 1 \<and> permits_held s = 0"
  by (simp add: exec_simps eval_nat_numeral permits_available_def permits_held_def)

subsection \<open>Accepted tasks\<close>




lemma run_append:
  "run s (xs @ ys) = (case run s xs of None \<Rightarrow> None | Some s1 \<Rightarrow> run s1 ys)"
  by (induction xs arbitrary: s) (simp_all split: option.splits)



subsection \<open>The order of a worker's steps\<close>






















subsection \<open>Publishing a result\<close>

lemma try_send_never_blocks: "try_send x c \<noteq> WouldBlock"
  by (simp add: try_send_def send_def)

lemma try_send_open:
  "\<not> closed c \<Longrightarrow> try_send x c = Proceeds (if has_room c then push x c else c)"
  by (simp add: try_send_def send_def)

lemma close_chan_never_blocks: "close_chan c \<noteq> WouldBlock"
  by (simp add: close_chan_def)

lemma worker_loop_never_stuck: "fst (worker_loop proc errs reqs) \<noteq> Stuck"
proof (induction reqs arbitrary: errs)
  case Nil
  then show ?case by simp
next
  case (Cons x reqs)
  obtain req dn where x: "x = (req, dn)" by (cases x)
  show ?case
  proof (cases "proc (FilePath req)")
    case Process_panics
    then show ?thesis using x by simp
  next
    case (Process_returns result err)
    have e: "(case err of None \<Rightarrow> Proceeds errs | Some e \<Rightarrow> try_send e errs) \<noteq> WouldBlock"
      by (cases err) (simp_all add: try_send_never_blocks)
    show ?thesis
    proof (cases "case err of None \<Rightarrow> Proceeds errs | Some e \<Rightarrow> try_send e errs")
      case WouldBlock
      then show ?thesis using e by simp
    next
      case (ChanPanic f)
      then show ?thesis using x Process_returns by simp
    next
      case (Proceeds errs')
      show ?thesis
      proof (cases "try_send result (ResponseChan req)")
        case WouldBlock
        then show ?thesis by (simp add: try_send_never_blocks)
      next
        case (ChanPanic f)
        then show ?thesis using x Process_returns Proceeds by simp
      next
        case p2: (Proceeds rc)
        show ?thesis
        proof (cases "close_chan rc")
          case WouldBlock
          then show ?thesis by (simp add: close_chan_never_blocks)
        next
          case (ChanPanic f)
          then show ?thesis using x Process_returns Proceeds p2 by simp
        next
          case p3: (Proceeds rc')
          then show ?thesis using x Process_returns Proceeds p2 Cons.IH[of errs']
            by (auto split: prod.splits)
        qed
      qed
    qed
  qed
qed

lemma Send_blocked_iff:
  assumes "crashed s = None" "i < length (pcs s)" "pcs s ! i = L108 r"
  shows "(fire s (Worker i Send) = None) =
           (\<not> closed (results (pool s)) \<and> \<not> has_room (results (pool s)))"
    and "\<not> closed (results (pool s)) \<Longrightarrow> has_room (results (pool s)) \<Longrightarrow>
           fire s (Worker i Send) =
             Some (s\<lparr>pool := (pool s)\<lparr>results := push r (results (pool s))\<rparr>,
                     pcs := (pcs s)[i := L111]\<rparr>)"
  using assms by (simp_all add: fire_def runWorker_def send_def)

lemma worker_responses:
  "snd (snd (worker p id' reqs)) = snd (snd (worker_loop (processor p) (errors_wp p) reqs))"
  by (simp add: worker_def split: prod.splits chan_op.splits)

lemma worker_never_stuck: "fst (worker p id' reqs) \<noteq> Stuck"
proof -
  obtain ex errs rcs where w: "worker_loop (processor p) (errors_wp p) reqs = (ex, errs, rcs)"
    by (cases "worker_loop (processor p) (errors_wp p) reqs")
  have "ex \<noteq> Stuck" using worker_loop_never_stuck[of "processor p" "errors_wp p" reqs] w by simp
  then show ?thesis using w close_chan_never_blocks[of "done_wp p"]
    by (cases "close_chan (done_wp p)"; cases ex) (simp_all add: worker_def)
qed

lemma worker_loop_publishes:
  assumes "proc (FilePath req) = Process_returns result err"
    and "\<not> closed (ResponseChan req)" and "\<not> closed errs"
  shows "snd (snd (worker_loop proc errs ((req, False) # rest))) =
           (if has_room (ResponseChan req) then push result (ResponseChan req)
            else ResponseChan req)\<lparr>closed := True\<rparr>
           # snd (snd (worker_loop proc
                        (case err of None \<Rightarrow> errs
                         | Some e \<Rightarrow> if has_room errs then push e errs else errs) rest))"
proof -
  let ?c = "if has_room (ResponseChan req) then push result (ResponseChan req)
            else ResponseChan req"
  have o: "\<not> closed ?c" using assms(2) by (simp add: push_def)
  have c: "close_chan ?c = Proceeds (?c\<lparr>closed := True\<rparr>)"
    using o by (simp only: close_chan_def if_False)
  show ?thesis
  proof (cases err)
    case None
    then show ?thesis using assms c
      by (simp add: try_send_open split: prod.splits)
  next
    case (Some e)
    then show ?thesis using assms c
      by (simp add: try_send_open split: prod.splits)
  qed
qed


lemma worker_publishes:
  assumes "processor p (FilePath req) = Process_returns result err"
    and "\<not> closed (ResponseChan req)" and "\<not> closed (errors_wp p)"
  shows "snd (snd (worker p id' ((req, False) # rest))) =
           (if has_room (ResponseChan req) then push result (ResponseChan req)
            else ResponseChan req)\<lparr>closed := True\<rparr>
           # snd (snd (worker
                        (p\<lparr>errors_wp :=
                             (case err of None \<Rightarrow> errors_wp p
                              | Some e \<Rightarrow> if has_room (errors_wp p) then push e (errors_wp p)
                                          else errors_wp p)\<rparr>) id' rest))"
  using worker_loop_publishes[of "processor p" req result err "errors_wp p" rest] assms
  by (simp add: worker_responses)

lemma step_at_send_publishes:
  assumes "crashed s = None" "i < length (pcs s)" "pcs s ! i = L108 r"
    and "fire s (Worker i c) = Some s'" and "crashed s' = None"
  shows "pcs s' ! i = L111 \<and> produced s' = produced s @ [r]"
  using assms
  by (cases c)
    (auto simp: fire_def runWorker_def send_def produced_def push_def crash_def
          split: if_splits)

text \<open>
  C5, amended. In \<open>processor.WorkerPool.worker\<close> the send of a result is a
  non-blocking send: the worker is never left blocked, and for a request whose
  \<open>Process\<close> returns it leaves the response channel closed, with the result in it
  when the channel had room and without it (the result dropped) otherwise, and goes on
  with the requests that follow. In \<open>StatefulPool.runWorker\<close> the send
  \<open>p.results <- result\<close> is a blocking send: it cannot proceed exactly when the channel
  is open and has no room, and whatever step the worker takes at that line without a
  panic leaves it at line 111 with the result added to the results sent, never dropped.
\<close>

theorem result_send_drops_in_worker_blocks_in_pool:
  "fst (worker p id' reqs) \<noteq> Stuck \<and>
   (processor p (FilePath req) = Process_returns result err \<and>
    \<not> closed (ResponseChan req) \<and> \<not> closed (errors_wp p) \<longrightarrow>
      snd (snd (worker p id' ((req, False) # rest))) =
        (if has_room (ResponseChan req) then push result (ResponseChan req)
         else ResponseChan req)\<lparr>closed := True\<rparr>
        # snd (snd (worker
                     (p\<lparr>errors_wp :=
                          (case err of None \<Rightarrow> errors_wp p
                           | Some e \<Rightarrow> if has_room (errors_wp p) then push e (errors_wp p)
                                       else errors_wp p)\<rparr>) id' rest))) \<and>
   (crashed s = None \<and> i < length (pcs s) \<and> pcs s ! i = L108 r \<longrightarrow>
      (fire s (Worker i Send) = None) =
         (\<not> closed (results (pool s)) \<and> \<not> has_room (results (pool s))) \<and>
      (\<forall>c s'. fire s (Worker i c) = Some s' \<and> crashed s' = None \<longrightarrow>
         pcs s' ! i = L111 \<and> produced s' = produced s @ [r]))"
proof (intro conjI impI allI)
  show "fst (worker p id' reqs) \<noteq> Stuck" by (rule worker_never_stuck)
next
  assume "processor p (FilePath req) = Process_returns result err \<and>
    \<not> closed (ResponseChan req) \<and> \<not> closed (errors_wp p)"
  then show "snd (snd (worker p id' ((req, False) # rest))) =
        (if has_room (ResponseChan req) then push result (ResponseChan req)
         else ResponseChan req)\<lparr>closed := True\<rparr>
        # snd (snd (worker
                     (p\<lparr>errors_wp :=
                          (case err of None \<Rightarrow> errors_wp p
                           | Some e \<Rightarrow> if has_room (errors_wp p) then push e (errors_wp p)
                                       else errors_wp p)\<rparr>) id' rest))"
    using worker_publishes[of p req result err id' rest] by simp
next
  assume "crashed s = None \<and> i < length (pcs s) \<and> pcs s ! i = L108 r"
  then show "(fire s (Worker i Send) = None) =
         (\<not> closed (results (pool s)) \<and> \<not> has_room (results (pool s)))"
    using Send_blocked_iff(1) by blast
next
  fix c s'
  assume "crashed s = None \<and> i < length (pcs s) \<and> pcs s ! i = L108 r"
    and "fire s (Worker i c) = Some s' \<and> crashed s' = None"
  then show "pcs s' ! i = L111" and "produced s' = produced s @ [r]"
    using step_at_send_publishes[of s i r c s'] by simp_all
qed


theorem result_send_drops_in_worker_blocks_in_pool_witness:
  "\<exists>(sp :: nat StatefulPool) s s'.
     NewStatefulPool 2 10 100000000 (\<lambda>_. 0) = Inr sp \<and>
     run (boot sp) [Call_Start, Call_Submit (Some 1) Case_send, Worker 0 TakePermit,
                    Worker 0 TakeTask, Worker 0 (Update 5), Worker 0 Process] = Some s \<and>
     crashed s = None \<and> pcs s ! 0 = L108 (Some 1) \<and>
     fire s (Worker 0 Send) = Some s' \<and> crashed s' = None \<and>
     pcs s' ! 0 = L111 \<and> produced s' = produced s @ [Some 1] \<and>
     snd (snd (worker
       \<lparr>size_wp = 1, processor = (\<lambda>_. Process_returns (5 :: nat) (None :: unit option)),
        requests = make_chan 1, done_wp = make_chan 0, errors_wp = make_chan 1\<rparr> 1
       [(\<lparr>FilePath = ''a'', ResponseChan = push 9 fresh_response\<rparr>, False),
        (\<lparr>FilePath = ''b'', ResponseChan = fresh_response\<rparr>, False)]))
     = [(push 9 fresh_response)\<lparr>closed := True\<rparr>, (push 5 fresh_response)\<lparr>closed := True\<rparr>] \<and>
     fst (worker
       \<lparr>size_wp = 1, processor = (\<lambda>_. Process_returns (5 :: nat) (None :: unit option)),
        requests = make_chan 1, done_wp = make_chan 0, errors_wp = make_chan 1\<rparr> 1
       [(\<lparr>FilePath = ''a'', ResponseChan = push 9 fresh_response\<rparr>, False),
        (\<lparr>FilePath = ''b'', ResponseChan = fresh_response\<rparr>, False)]) \<noteq> Stuck"
proof -
  let ?wp = "\<lparr>size_wp = 1, processor = (\<lambda>_. Process_returns (5 :: nat) (None :: unit option)),
        requests = make_chan 1, done_wp = make_chan 0, errors_wp = make_chan 1\<rparr>"
  let ?full = "\<lparr>FilePath = ''a'', ResponseChan = push (9 :: nat) fresh_response\<rparr>"
  let ?fresh = "\<lparr>FilePath = ''b'', ResponseChan = (fresh_response :: nat chan)\<rparr>"
  have "\<exists>(sp :: nat StatefulPool) s s'.
     NewStatefulPool 2 10 100000000 (\<lambda>_. 0) = Inr sp \<and>
     run (boot sp) [Call_Start, Call_Submit (Some 1) Case_send, Worker 0 TakePermit,
                    Worker 0 TakeTask, Worker 0 (Update 5), Worker 0 Process] = Some s \<and>
     crashed s = None \<and> 0 < length (pcs s) \<and> pcs s ! 0 = L108 (Some 1) \<and>
     fire s (Worker 0 Send) = Some s' \<and> crashed s' = None"
    by (simp add: exec_simps eval_nat_numeral)
  then obtain sp :: "nat StatefulPool" and s s'
    where p: "NewStatefulPool 2 10 100000000 (\<lambda>_. 0) = Inr sp"
      and r: "run (boot sp) [Call_Start, Call_Submit (Some 1) Case_send, Worker 0 TakePermit,
                    Worker 0 TakeTask, Worker 0 (Update 5), Worker 0 Process] = Some s"
      and c: "crashed s = None" and i: "0 < length (pcs s)" and at: "pcs s ! 0 = L108 (Some 1)"
      and f: "fire s (Worker 0 Send) = Some s'" and c': "crashed s' = None"
    by (elim exE conjE)
  have 1: "pcs s' ! 0 = L111 \<and> produced s' = produced s @ [Some 1]"
    using result_send_drops_in_worker_blocks_in_pool
            [of ?wp 1 "[(?full, False), (?fresh, False)]" ?full 5 None "[(?fresh, False)]" s 0 "Some 1"]
          c i at f c'
    by simp
  have 2: "snd (snd (worker ?wp 1 [(?full, False), (?fresh, False)])) =
             (push 9 fresh_response)\<lparr>closed := True\<rparr>
             # snd (snd (worker ?wp 1 [(?fresh, False)]))"
    using result_send_drops_in_worker_blocks_in_pool
            [of ?wp 1 "[(?full, False), (?fresh, False)]" ?full 5 None "[(?fresh, False)]" s 0 "Some 1"]
    by (simp add: fresh_response_def make_chan_def has_room_def push_def)
  have 3: "snd (snd (worker ?wp 1 [(?fresh, False)])) =
             [(push 5 fresh_response)\<lparr>closed := True\<rparr>]"
    using result_send_drops_in_worker_blocks_in_pool
            [of ?wp 1 "[(?full, False), (?fresh, False)]" ?fresh 5 None "[]" s 0 "Some 1"]
    by (simp add: fresh_response_def make_chan_def has_room_def push_def worker_def)
  have 4: "fst (worker ?wp 1 [(?full, False), (?fresh, False)]) \<noteq> Stuck"
    using result_send_drops_in_worker_blocks_in_pool
            [of ?wp 1 "[(?full, False), (?fresh, False)]" ?full 5 None "[(?fresh, False)]" s 0
                "Some 1"]
    by (elim conjE)
  have 5: "snd (snd (worker ?wp 1 [(?full, False), (?fresh, False)])) =
             [(push 9 fresh_response)\<lparr>closed := True\<rparr>,
              (push 5 fresh_response)\<lparr>closed := True\<rparr>]"
    using 2 3 by simp
  show ?thesis
    by (rule exI[of _ sp], rule exI[of _ s], rule exI[of _ s'])
       (intro conjI p r c at f c' conjunct1[OF 1] conjunct2[OF 1] 5 4)
qed

text \<open>
  C5, as stated, fails for \<open>StatefulPool\<close>: with \<open>NewStatefulPool(1, 1, 100ms)\<close>, one
  result in the buffer of \<open>p.results\<close> and nobody reading, the worker that holds the
  second result stands at line 108 and can take no step at all.
\<close>

lemma worker_blocked_at_send:
  assumes "pcs s ! i = L108 r" "\<not> closed (results (pool s))" "\<not> has_room (results (pool s))"
    "buf (results (pool s)) \<noteq> []"
  shows "fire s (Worker i c) = None"
  using assms by (cases c) (simp_all add: fire_def runWorker_def send_def)

theorem worker_blocked_on_full_results:
  "\<exists>(p :: nat StatefulPool) s.
     NewStatefulPool 1 1 100000000 (\<lambda>_. 0) = Inr p \<and>
     run (boot p) [Call_Start, Call_Submit (Some 1) Case_send, Worker 0 TakePermit,
                   Worker 0 TakeTask, Worker 0 (Update 5), Worker 0 Process, Worker 0 Send,
                   Worker 0 Release, Call_Submit (Some 2) Case_send, Worker 0 TakePermit,
                   Worker 0 TakeTask, Worker 0 (Update 6), Worker 0 Process] = Some s \<and>
     crashed s = None \<and> pcs s = [L108 (Some 2)] \<and>
     buf (results (pool s)) = [Some 1] \<and> cap (results (pool s)) = 1 \<and>
     send (Some 2) (results (pool s)) = WouldBlock \<and>
     (\<forall>c. fire s (Worker 0 c) = None)"
proof -
  have "\<exists>(p :: nat StatefulPool) s.
     NewStatefulPool 1 1 100000000 (\<lambda>_. 0) = Inr p \<and>
     run (boot p) [Call_Start, Call_Submit (Some 1) Case_send, Worker 0 TakePermit,
                   Worker 0 TakeTask, Worker 0 (Update 5), Worker 0 Process, Worker 0 Send,
                   Worker 0 Release, Call_Submit (Some 2) Case_send, Worker 0 TakePermit,
                   Worker 0 TakeTask, Worker 0 (Update 6), Worker 0 Process] = Some s \<and>
     crashed s = None \<and> pcs s = [L108 (Some 2)] \<and>
     buf (results (pool s)) = [Some 1] \<and> cap (results (pool s)) = 1 \<and>
     \<not> closed (results (pool s)) \<and>
     send (Some 2) (results (pool s)) = WouldBlock"
    by (simp add: exec_simps eval_nat_numeral)
  then obtain p :: "nat StatefulPool" and s
    where p: "NewStatefulPool 1 1 100000000 (\<lambda>_. 0) = Inr p"
      and r: "run (boot p) [Call_Start, Call_Submit (Some 1) Case_send, Worker 0 TakePermit,
                   Worker 0 TakeTask, Worker 0 (Update 5), Worker 0 Process, Worker 0 Send,
                   Worker 0 Release, Call_Submit (Some 2) Case_send, Worker 0 TakePermit,
                   Worker 0 TakeTask, Worker 0 (Update 6), Worker 0 Process] = Some s"
      and f: "crashed s = None" "pcs s = [L108 (Some 2)]"
        "buf (results (pool s)) = [Some 1]" "cap (results (pool s)) = 1"
        "\<not> closed (results (pool s))" "send (Some 2) (results (pool s)) = WouldBlock"
    by blast
  have "fire s (Worker 0 c) = None" for c
    by (rule worker_blocked_at_send[where r = "Some 2"]) (simp_all add: f has_room_def)
  then show ?thesis using p r f by blast
qed

subsection \<open>Stop\<close>





lemma reaches_consistent: "consistent s \<Longrightarrow> reaches P n s s' \<Longrightarrow> consistent s'"
  unfolding reaches_def using consistent_run by blast

































text \<open>
  After \<open>Stop\<close> closed the queue, a worker can go through one more iteration with the
  \<open>nil\<close> task the closed queue yields, the reader taking the result, and stand where it
  stood; and so any number of times, while \<open>Stop\<close> waits.
\<close>

subsubsection \<open>No bound on the wait\<close>

lemma one_more_iteration:
  assumes "crashed s = None" "pcs s = [L93]" "stop s = S79"
    "buf (rateLimiter (pool s)) = [()]" "\<not> closed (rateLimiter (pool s))"
    "cap (rateLimiter (pool s)) = 1"
    "closed (tasks (pool s))" "buf (tasks (pool s)) = []"
    "\<not> closed (results (pool s))" "buf (results (pool s)) = []"
  shows "\<exists>s'. run s [Worker 0 TakePermit, Worker 0 TakeTask, Worker 0 (Update 0),
                      Worker 0 Process, Worker 0 SendTo, Worker 0 Release] = Some s' \<and>
              crashed s' = None \<and> pcs s' = [L93] \<and> stop s' = S79 \<and>
              buf (rateLimiter (pool s')) = [()] \<and> \<not> closed (rateLimiter (pool s')) \<and>
              cap (rateLimiter (pool s')) = 1 \<and>
              closed (tasks (pool s')) \<and> buf (tasks (pool s')) = [] \<and>
              \<not> closed (results (pool s')) \<and> buf (results (pool s')) = []"
  using assms by (simp add: exec_simps)

lemma more_iterations:
  assumes "crashed s = None" "pcs s = [L93]" "stop s = S79"
    "buf (rateLimiter (pool s)) = [()]" "\<not> closed (rateLimiter (pool s))"
    "cap (rateLimiter (pool s)) = 1"
    "closed (tasks (pool s))" "buf (tasks (pool s)) = []"
    "\<not> closed (results (pool s))" "buf (results (pool s)) = []"
  shows "\<exists>s'. run s (concat (replicate k
                 [Worker 0 TakePermit, Worker 0 TakeTask, Worker 0 (Update 0),
                  Worker 0 Process, Worker 0 SendTo, Worker 0 Release])) = Some s' \<and>
              crashed s' = None \<and> stop s' = S79"
  using assms
proof (induction k arbitrary: s)
  case 0
  then show ?case by simp
next
  case (Suc k)
  from one_more_iteration[OF Suc.prems]
  obtain s1 where r1: "run s [Worker 0 TakePermit, Worker 0 TakeTask, Worker 0 (Update 0),
                      Worker 0 Process, Worker 0 SendTo, Worker 0 Release] = Some s1"
    and k1: "crashed s1 = None" "pcs s1 = [L93]" "stop s1 = S79"
      "buf (rateLimiter (pool s1)) = [()]" "\<not> closed (rateLimiter (pool s1))"
      "cap (rateLimiter (pool s1)) = 1"
      "closed (tasks (pool s1))" "buf (tasks (pool s1)) = []"
      "\<not> closed (results (pool s1))" "buf (results (pool s1)) = []"
    by blast
  from Suc.IH[OF k1]
  obtain s' where "run s1 (concat (replicate k
                 [Worker 0 TakePermit, Worker 0 TakeTask, Worker 0 (Update 0),
                  Worker 0 Process, Worker 0 SendTo, Worker 0 Release])) = Some s'"
    and e: "crashed s' = None" "stop s' = S79" by blast
  then have "run s ([Worker 0 TakePermit, Worker 0 TakeTask, Worker 0 (Update 0),
                      Worker 0 Process, Worker 0 SendTo, Worker 0 Release] @
                    concat (replicate k
                 [Worker 0 TakePermit, Worker 0 TakeTask, Worker 0 (Update 0),
                  Worker 0 Process, Worker 0 SendTo, Worker 0 Release])) = Some s'"
    using r1 by (simp only: run_append option.case)
  then show ?case using e by simp
qed

theorem Stop_still_waiting_after_any_number_of_steps:
  "\<exists>(p :: nat StatefulPool) s.
     NewStatefulPool 1 1 100000000 (\<lambda>_. 0) = Inr p \<and>
     run (boot p) [Call_Start, Stop_next, Stop_next] = Some s \<and>
     crashed s = None \<and> stop s = S79 \<and>
     (\<forall>k. \<exists>s'. run s (concat (replicate k
                 [Worker 0 TakePermit, Worker 0 TakeTask, Worker 0 (Update 0),
                  Worker 0 Process, Worker 0 SendTo, Worker 0 Release])) = Some s' \<and>
              crashed s' = None \<and> stop s' = S79)"
proof -
  have "\<exists>(p :: nat StatefulPool) s.
     NewStatefulPool 1 1 100000000 (\<lambda>_. 0) = Inr p \<and>
     run (boot p) [Call_Start, Stop_next, Stop_next] = Some s \<and>
     crashed s = None \<and> pcs s = [L93] \<and> stop s = S79 \<and>
     buf (rateLimiter (pool s)) = [()] \<and> \<not> closed (rateLimiter (pool s)) \<and>
     cap (rateLimiter (pool s)) = 1 \<and>
     closed (tasks (pool s)) \<and> buf (tasks (pool s)) = [] \<and>
     \<not> closed (results (pool s)) \<and> buf (results (pool s)) = []"
    by (simp add: exec_simps eval_nat_numeral)
  then obtain p :: "nat StatefulPool" and s
    where p: "NewStatefulPool 1 1 100000000 (\<lambda>_. 0) = Inr p"
      and r: "run (boot p) [Call_Start, Stop_next, Stop_next] = Some s"
      and k: "crashed s = None" "pcs s = [L93]" "stop s = S79"
        "buf (rateLimiter (pool s)) = [()]" "\<not> closed (rateLimiter (pool s))"
        "cap (rateLimiter (pool s)) = 1"
        "closed (tasks (pool s))" "buf (tasks (pool s)) = []"
        "\<not> closed (results (pool s))" "buf (results (pool s)) = []"
    by blast
  show ?thesis using p r k(1,3) more_iterations[OF k] by blast
qed


subsection \<open>Results for the accepted tasks\<close>























section \<open>Theorems: processor.WorkerPool\<close>

lemma answer_fresh:
  "try_send result fresh_response = Proceeds (push result fresh_response)"
  "close_chan (push result fresh_response) = Proceeds (answered result)"
  by (simp_all add: try_send_def send_def fresh_response_def make_chan_def has_room_def
        push_def close_chan_def answered_def)

lemma offer_error:
  assumes "\<not> closed errs"
  shows "\<exists>errs'. (case err of None \<Rightarrow> Proceeds errs | Some e \<Rightarrow> try_send e errs) = Proceeds errs'
                \<and> \<not> closed errs'"
  using assms by (cases err) (simp_all add: try_send_open push_def)

lemma worker_loop_failed_task:
  assumes "proc (FilePath req) = Process_returns result (Some e)" and "\<not> closed errs"
    and "ResponseChan req = fresh_response"
  shows "worker_loop proc errs ((req, False) # rest) =
           (case worker_loop proc (if has_room errs then push e errs else errs) rest of
              (ex, errs', rcs) \<Rightarrow> (ex, errs', answered result # rcs))"
  using assms by (simp add: try_send_open answer_fresh)

lemma worker_loop_serves_all:
  assumes "\<forall>x \<in> set reqs. \<not> snd x \<and> proc (FilePath (fst x)) \<noteq> Process_panics \<and>
             ResponseChan (fst x) = fresh_response"
    and "\<not> closed errs"
  shows "\<exists>errs'. \<not> closed errs' \<and>
           worker_loop proc errs reqs =
             (RangeEnded, errs', map (\<lambda>x. served proc (fst x)) reqs)"
  using assms
proof (induction reqs arbitrary: errs)
  case Nil
  then show ?case by simp
next
  case (Cons x reqs)
  obtain req dn where x: "x = (req, dn)" by (cases x)
  have dn: "\<not> dn" and np: "proc (FilePath req) \<noteq> Process_panics"
    and fr: "ResponseChan req = fresh_response"
    using Cons.prems(1) x by simp_all
  obtain result err where pr: "proc (FilePath req) = Process_returns result err"
    using np by (cases "proc (FilePath req)") simp_all
  obtain errs1 where e1: "(case err of None \<Rightarrow> Proceeds errs | Some e \<Rightarrow> try_send e errs)
                            = Proceeds errs1" and o1: "\<not> closed errs1"
    using offer_error[OF Cons.prems(2)] by blast
  have "\<forall>x \<in> set reqs. \<not> snd x \<and> proc (FilePath (fst x)) \<noteq> Process_panics \<and>
             ResponseChan (fst x) = fresh_response"
    using Cons.prems(1) by simp
  then obtain errs' where o': "\<not> closed errs'"
    and l: "worker_loop proc errs1 reqs = (RangeEnded, errs', map (\<lambda>x. served proc (fst x)) reqs)"
    using Cons.IH[OF _ o1] by blast
  have "worker_loop proc errs (x # reqs) =
          (RangeEnded, errs', map (\<lambda>x. served proc (fst x)) (x # reqs))"
    using x dn pr fr e1 l by (simp add: answer_fresh served_def)
  then show ?case using o' by blast
qed

text \<open>
  C7, amended. When \<open>Process\<close> returns for every request a worker receives, with or
  without an error, the worker serves every request and ends only when the request
  channel ends: each response channel holds the result value that \<open>Process\<close> returned
  and is closed. For a request whose \<open>Process\<close> returned an error, the error is
  offered to the error channel (and dropped when that is full), the result is sent,
  and the loop goes on with the next request.
\<close>

theorem failed_task_does_not_stop_worker:
  assumes "\<forall>x \<in> set reqs. \<not> snd x \<and> processor p (FilePath (fst x)) \<noteq> Process_panics \<and>
             ResponseChan (fst x) = fresh_response"
    and "\<not> closed (errors_wp p)" and "\<not> closed (done_wp p)"
  shows "fst (worker p id' reqs) = RangeEnded \<and>
         snd (snd (worker p id' reqs)) = map (\<lambda>x. served (processor p) (fst x)) reqs \<and>
         (\<forall>req result e rest errs.
            processor p (FilePath req) = Process_returns result (Some e) \<and> \<not> closed errs \<and>
            ResponseChan req = fresh_response \<longrightarrow>
            worker_loop (processor p) errs ((req, False) # rest) =
              (case worker_loop (processor p) (if has_room errs then push e errs else errs) rest of
                 (ex, errs', rcs) \<Rightarrow> (ex, errs', answered result # rcs)))"
proof -
  obtain errs' where
    l: "worker_loop (processor p) (errors_wp p) reqs =
          (RangeEnded, errs', map (\<lambda>x. served (processor p) (fst x)) reqs)"
    using worker_loop_serves_all[OF assms(1,2)] by blast
  have a: "fst (worker p id' reqs) = RangeEnded"
    and b: "snd (snd (worker p id' reqs)) = map (\<lambda>x. served (processor p) (fst x)) reqs"
    using l assms(3) by (simp_all add: worker_def close_chan_def)
  have c: "worker_loop (processor p) errs ((req, False) # rest) =
              (case worker_loop (processor p) (if has_room errs then push e errs else errs) rest of
                 (ex, errs', rcs) \<Rightarrow> (ex, errs', answered result # rcs))"
    if "processor p (FilePath req) = Process_returns result (Some e) \<and> \<not> closed errs \<and>
            ResponseChan req = fresh_response"
    for req :: "'a WorkRequest" and result e rest errs
    using that by (intro worker_loop_failed_task) simp_all
  show ?thesis
    apply (intro conjI allI impI)
    subgoal by (rule a)
    subgoal by (rule b)
    subgoal by (rule c)
    done
qed

theorem failed_task_does_not_stop_worker_witness:
  "fst (worker \<lparr>size_wp = 2,
                 processor = (\<lambda>path. if path = ''a.txt''
                                      then Process_returns (0 :: nat) (Some ''unreadable'')
                                      else Process_returns 1 None),
                 requests = make_chan 4, done_wp = make_chan 0, errors_wp = make_chan 2\<rparr> 1
          [(\<lparr>FilePath = ''a.txt'', ResponseChan = fresh_response\<rparr>, False),
           (\<lparr>FilePath = ''b.txt'', ResponseChan = fresh_response\<rparr>, False)]) = RangeEnded \<and>
   snd (snd (worker \<lparr>size_wp = 2,
                 processor = (\<lambda>path. if path = ''a.txt''
                                      then Process_returns (0 :: nat) (Some ''unreadable'')
                                      else Process_returns 1 None),
                 requests = make_chan 4, done_wp = make_chan 0, errors_wp = make_chan 2\<rparr> 1
          [(\<lparr>FilePath = ''a.txt'', ResponseChan = fresh_response\<rparr>, False),
           (\<lparr>FilePath = ''b.txt'', ResponseChan = fresh_response\<rparr>, False)]))
     = [answered 0, answered 1]"
  using failed_task_does_not_stop_worker
    [of "[(\<lparr>FilePath = ''a.txt'', ResponseChan = fresh_response\<rparr>, False),
          (\<lparr>FilePath = ''b.txt'', ResponseChan = fresh_response\<rparr>, False)]"
        "\<lparr>size_wp = 2,
          processor = (\<lambda>path. if path = ''a.txt''
                               then Process_returns (0 :: nat) (Some ''unreadable'')
                               else Process_returns 1 None),
          requests = make_chan 4, done_wp = make_chan 0, errors_wp = make_chan 2\<rparr>" 1]
  by (simp add: make_chan_def served_def)

text \<open>
  C7, as stated, fails: when \<open>Process\<close> panics on the first of two requests, the
  worker ends with that panic; neither request gets a response, the second is never
  served.
\<close>

theorem panic_in_Process_ends_worker:
  "fst (worker \<lparr>size_wp = 2,
                 processor = (\<lambda>path. if path = ''a.txt''
                                      then (Process_panics :: (nat, string) process)
                                      else Process_returns 1 None),
                 requests = make_chan 4, done_wp = make_chan 0, errors_wp = make_chan 2\<rparr> 1
          [(\<lparr>FilePath = ''a.txt'', ResponseChan = fresh_response\<rparr>, False),
           (\<lparr>FilePath = ''b.txt'', ResponseChan = fresh_response\<rparr>, False)])
     = Crashed ProcessPanic \<and>
   snd (snd (worker \<lparr>size_wp = 2,
                 processor = (\<lambda>path. if path = ''a.txt''
                                      then (Process_panics :: (nat, string) process)
                                      else Process_returns 1 None),
                 requests = make_chan 4, done_wp = make_chan 0, errors_wp = make_chan 2\<rparr> 1
          [(\<lparr>FilePath = ''a.txt'', ResponseChan = fresh_response\<rparr>, False),
           (\<lparr>FilePath = ''b.txt'', ResponseChan = fresh_response\<rparr>, False)]))
     = []"
  by (simp add: worker_def)

end
